theory Spec2Isabelle
  imports Complex_Main
begin

section \<open>JavaScript values\<close>

text \<open>
  The values a caller can pass where the code expects a profile id. \<open>JInt\<close> is a number
  with an integer value, \<open>JNonInt\<close> any other number except NaN (a fraction or an
  infinity), \<open>JStr\<close> a string.
\<close>

datatype jsval = JUndefined | JNull | JInt int | JNaN | JNonInt | JStr string

fun Number_isInteger :: "jsval \<Rightarrow> bool" where
  "Number_isInteger (JInt n) = True"
| "Number_isInteger JUndefined = False"
| "Number_isInteger JNull = False"
| "Number_isInteger JNaN = False"
| "Number_isInteger JNonInt = False"
| "Number_isInteger (JStr s) = False"

text \<open>What \<^verbatim>\<open>if (v)\<close> and \<^verbatim>\<open>v && ...\<close> test.\<close>

fun truthy :: "jsval \<Rightarrow> bool" where
  "truthy JUndefined = False"
| "truthy JNull = False"
| "truthy (JInt n) = (n \<noteq> 0)"
| "truthy JNaN = False"
| "truthy JNonInt = True"
| "truthy (JStr s) = (s \<noteq> [])"

text \<open>A number that may be null or undefined (\<open>None\<close>); 0 is falsy as well.\<close>

fun truthy_num :: "int option \<Rightarrow> bool" where
  "truthy_num None = False"
| "truthy_num (Some n) = (n \<noteq> 0)"

section \<open>Data model\<close>

text \<open>
  Timestamps are the milliseconds \<^verbatim>\<open>Date.parse\<close> gives for the upstream's ISO strings.
  A participant is the \<^verbatim>\<open>player\<close> object of a team entry.
\<close>

record participant =
  player_profile_id :: int
  civilization :: string
  result :: "string option"

record game =
  started_at :: int
  duration :: "int option"
  map_name :: string
  teams :: "participant list list"

text \<open>The payload of one page of \<^verbatim>\<open>/players/<id>/games\<close>.\<close>

record page_json =
  page :: int
  offset :: int
  total_count :: int
  games :: "game list"

text \<open>\<^verbatim>\<open>fetchPlayerGames\<close> adds three fields to the payload.\<close>

record fetch_state = page_json +
  profile_id :: jsval
  opponent_profile_id :: jsval
  index :: nat

text \<open>
  The request \<^verbatim>\<open>fetchAOE4World\<close> receives: the profile id of the path and the query
  options. The HTTP client is outside the code under study: it is a parameter, and
  \<open>None\<close> is the \<^verbatim>\<open>null\<close> it returns for a failed request.
\<close>

record request =
  rq_profile_id :: jsval
  rq_opponent_profile_id :: "jsval option"
  rq_since :: "int option"
  rq_page :: int

type_synonym fetcher = "request \<Rightarrow> page_json option"

section \<open>api.js: the games enumerator\<close>

definition games_request :: "jsval \<Rightarrow> jsval \<Rightarrow> int option \<Rightarrow> int \<Rightarrow> request" where
  "games_request profileId opponentProfileId since pg =
     \<lparr>rq_profile_id = profileId,
      rq_opponent_profile_id = (if truthy opponentProfileId then Some opponentProfileId else None),
      rq_since = (if truthy_num since then since else None),
      rq_page = pg\<rparr>"

definition fetchPlayerGames ::
  "fetcher \<Rightarrow> jsval \<Rightarrow> jsval \<Rightarrow> int option \<Rightarrow> int \<Rightarrow> fetch_state option" where
  "fetchPlayerGames f profileId opponentProfileId since pg =
     (case f (games_request profileId opponentProfileId since pg) of
        None \<Rightarrow> None
      | Some json \<Rightarrow>
          Some \<lparr>page = page json, offset = offset json, total_count = total_count json,
                games = games json, profile_id = profileId,
                opponent_profile_id = opponentProfileId, index = 0\<rparr>)"

text \<open>
  What a run of the generator does, in order: the requests it issues and the games it
  yields, each with the position of its state in the \<^verbatim>\<open>states\<close> array.
\<close>

datatype event = Fetched nat request | Yielded nat game

text \<open>
  How a run ends. \<open>InvalidArgument\<close> is the early \<^verbatim>\<open>return null\<close>, \<open>Exhausted\<close> the
  \<^verbatim>\<open>break\<close> when no state has a game left, \<open>TypeError\<close> the exception of reading a
  property of \<^verbatim>\<open>null\<close>, and \<open>Unfinished\<close> a run cut by the fuel of the model.
\<close>

datatype outcome = InvalidArgument | Exhausted | TypeError | Unfinished

text \<open>
  The \<^verbatim>\<open>for\<close> loop at the head of each round: a state whose page is used up and whose
  total is not reached is replaced by the fetch of its next page. A \<^verbatim>\<open>null\<close> state
  throws at \<^verbatim>\<open>s.index\<close> (\<open>None\<close> in the second component).
\<close>

definition needs_new_page :: "fetch_state \<Rightarrow> bool" where
  "needs_new_page s =
     (index s \<ge> length (games s) \<and> offset s + int (index s) < total_count s)"

fun fetch_new_pages ::
  "fetcher \<Rightarrow> jsval \<Rightarrow> int option \<Rightarrow> nat \<Rightarrow> fetch_state option list
     \<Rightarrow> event list \<times> fetch_state option list option" where
  "fetch_new_pages f opp since i [] = ([], Some [])"
| "fetch_new_pages f opp since i (None # ss) = ([], None)"
| "fetch_new_pages f opp since i (Some s # ss) =
     (if needs_new_page s
      then (Fetched i (games_request (profile_id s) opp since (page s + 1)) #
              fst (fetch_new_pages f opp since (Suc i) ss),
            map_option (Cons (fetchPlayerGames f (profile_id s) opp since (page s + 1)))
              (snd (fetch_new_pages f opp since (Suc i) ss)))
      else (fst (fetch_new_pages f opp since (Suc i) ss),
            map_option (Cons (Some s)) (snd (fetch_new_pages f opp since (Suc i) ss))))"

text \<open>
  The \<^verbatim>\<open>reduce\<close> that picks \<^verbatim>\<open>firstState\<close>, with the position of each state. The outer
  \<open>None\<close> is the TypeError of a \<^verbatim>\<open>null\<close> state, \<open>Some None\<close> the \<^verbatim>\<open>null\<close> result.
\<close>

fun reduce_firstState ::
  "nat \<Rightarrow> (nat \<times> fetch_state) option \<Rightarrow> fetch_state option list
     \<Rightarrow> (nat \<times> fetch_state) option option" where
  "reduce_firstState i prev [] = Some prev"
| "reduce_firstState i prev (None # ss) = None"
| "reduce_firstState i prev (Some s # ss) =
     (if index s \<ge> length (games s) then reduce_firstState (Suc i) prev ss
      else case prev of
             None \<Rightarrow> reduce_firstState (Suc i) (Some (i, s)) ss
           | Some (j, p) \<Rightarrow>
               if started_at (games p ! index p) < started_at (games s ! index s)
               then reduce_firstState (Suc i) (Some (i, s)) ss
               else reduce_firstState (Suc i) prev ss)"

text \<open>The \<^verbatim>\<open>while (true)\<close> loop; the fuel bounds the number of rounds.\<close>

fun enum_loop ::
  "nat \<Rightarrow> fetcher \<Rightarrow> jsval \<Rightarrow> int option \<Rightarrow> fetch_state option list
     \<Rightarrow> event list \<times> outcome" where
  "enum_loop 0 f opp since states = ([], Unfinished)"
| "enum_loop (Suc n) f opp since states =
     (case fetch_new_pages f opp since 0 states of
        (evs, None) \<Rightarrow> (evs, TypeError)
      | (evs, Some states') \<Rightarrow>
          (case reduce_firstState 0 None states' of
             None \<Rightarrow> (evs, TypeError)
           | Some None \<Rightarrow> (evs, Exhausted)
           | Some (Some (i, s)) \<Rightarrow>
               (let (evs', oc) =
                      enum_loop n f opp since
                        (states'[i := Some (s\<lparr>index := index s + 1\<rparr>)])
                in (evs @ Yielded i (games s ! index s) # evs', oc))))"

text \<open>The first argument of \<^verbatim>\<open>enumPlayerGames\<close>: an array of ids or one id.\<close>

datatype ids_arg = Ids "jsval list" | Id jsval

fun as_array :: "ids_arg \<Rightarrow> jsval list" where
  "as_array (Ids ps) = ps"
| "as_array (Id p) = [p]"

definition enumPlayerGames ::
  "nat \<Rightarrow> fetcher \<Rightarrow> ids_arg \<Rightarrow> jsval \<Rightarrow> int option \<Rightarrow> event list \<times> outcome" where
  "enumPlayerGames n f profileIds opponentProfileId since =
     (let ids = as_array profileIds in
      if filter (\<lambda>p. \<not> Number_isInteger p) ids \<noteq> [] then ([], InvalidArgument)
      else if truthy opponentProfileId \<and> \<not> Number_isInteger opponentProfileId
      then ([], InvalidArgument)
      else
        (let states = map (\<lambda>p. fetchPlayerGames f p opponentProfileId since 1) ids;
             (evs, oc) = enum_loop n f opponentProfileId since states
         in (map (\<lambda>(i, p). Fetched i (games_request p opponentProfileId since 1))
               (enumerate 0 ids) @ evs, oc)))"

fun yielded :: "event list \<Rightarrow> (nat \<times> game) list" where
  "yielded [] = []"
| "yielded (Yielded i g # es) = (i, g) # yielded es"
| "yielded (Fetched i r # es) = yielded es"

fun fetched :: "event list \<Rightarrow> (nat \<times> request) list" where
  "fetched [] = []"
| "fetched (Yielded i g # es) = fetched es"
| "fetched (Fetched i r # es) = (i, r) # fetched es"

section \<open>handlers.js: the win rate of a session or window\<close>

text \<open>
  The options of \<^verbatim>\<open>getPlayerWinRate\<close>. \<open>opponent\<close> is the profile id of the opponent
  object, \<open>idletime\<close> and \<open>timespan\<close> are whole seconds, \<open>None\<close> standing for a missing
  or NaN value. The source's field \<^verbatim>\<open>map\<close> is \<open>map_filter\<close> here.
\<close>

record options =
  opponent :: "int option"
  map_filter :: "string option"
  civ :: "string option"
  idletime :: "int option"
  timespan :: "int option"
  includeTeamGames :: bool

definition default_options :: options where
  "default_options =
     \<lparr>opponent = None, map_filter = None, civ = None, idletime = Some (4 * 3600),
      timespan = None, includeTeamGames = False\<rparr>"

text \<open>
  The counters of \<^verbatim>\<open>stats\<close> (its field \<^verbatim>\<open>duration\<close> is \<open>duration_total\<close> here; the two
  timestamps start as the number 0, which is \<open>None\<close>), the variables of the loop, and the
  object returned.
\<close>

record counters =
  games_count :: nat
  wins_count :: nat
  losses_count :: nat
  first_game_at :: "int option"
  last_game_at :: "int option"
  duration_total :: int

record loop_vars = counters +
  lastgame :: int
  pendingGames :: nat
  pendingGame :: "game option"

record stats = counters +
  win_rate :: rat
  pending_games :: nat
  pending_game_started_at :: "int option"

definition initial_vars :: loop_vars where
  "initial_vars =
     \<lparr>games_count = 0, wins_count = 0, losses_count = 0, first_game_at = None,
      last_game_at = None, duration_total = 0, lastgame = 0, pendingGames = 0,
      pendingGame = None\<rparr>"

text \<open>The two \<^verbatim>\<open>break\<close> tests at the head of the loop body.\<close>

definition loop_break :: "options \<Rightarrow> int \<Rightarrow> int \<Rightarrow> game \<Rightarrow> bool" where
  "loop_break opts now lg g =
     (let gametime = started_at g in
      if \<not> truthy_num (timespan opts)
      then lg \<noteq> 0 \<and> (case idletime opts of
                         None \<Rightarrow> False
                       | Some idle \<Rightarrow> lg - gametime > idle * 1000)
      else (case timespan opts of
              None \<Rightarrow> False
            | Some ts \<Rightarrow> now - gametime > ts * 1000))"

definition teamPlayer :: "jsval list \<Rightarrow> participant list \<Rightarrow> participant option" where
  "teamPlayer playerProfileIds team =
     (case filter (\<lambda>p. JInt (player_profile_id p) \<in> set playerProfileIds) team of
        [] \<Rightarrow> None
      | p # _ \<Rightarrow> Some p)"

definition teamOpponent :: "int option \<Rightarrow> participant list \<Rightarrow> participant option" where
  "teamOpponent opp team =
     (case opp of
        None \<Rightarrow> None
      | Some opp_id \<Rightarrow>
          (case filter (\<lambda>p. player_profile_id p = opp_id) team of
             [] \<Rightarrow> None
           | p # _ \<Rightarrow> Some p))"

text \<open>The loop over the teams, which sets \<^verbatim>\<open>playerState\<close> and \<^verbatim>\<open>opponentState\<close>.\<close>

fun team_states ::
  "jsval list \<Rightarrow> int option \<Rightarrow> participant list list
     \<Rightarrow> participant option \<times> participant option
     \<Rightarrow> participant option \<times> participant option" where
  "team_states ids opp [] acc = acc"
| "team_states ids opp (team # ts) (playerState, opponentState) =
     (case teamPlayer ids team of
        Some p \<Rightarrow> team_states ids opp ts (Some p, opponentState)
      | None \<Rightarrow>
          (case teamOpponent opp team of
             Some q \<Rightarrow> team_states ids opp ts (playerState, Some q)
           | None \<Rightarrow> team_states ids opp ts (playerState, opponentState)))"

text \<open>\<^verbatim>\<open>civ && playerState.civilization != civ\<close>, and the same for the map.\<close>

fun filter_rejects :: "string option \<Rightarrow> string \<Rightarrow> bool" where
  "filter_rejects None v = False"
| "filter_rejects (Some w) v = (w \<noteq> [] \<and> v \<noteq> w)"

text \<open>\<^verbatim>\<open>game.duration || 0\<close>.\<close>

definition duration_of :: "game \<Rightarrow> int" where
  "duration_of g = (case duration g of None \<Rightarrow> 0 | Some d \<Rightarrow> d)"

text \<open>The loop body after the \<^verbatim>\<open>break\<close> tests, from \<^verbatim>\<open>lastgame = gametime\<close> on.\<close>

definition loop_body :: "options \<Rightarrow> int \<Rightarrow> jsval list \<Rightarrow> loop_vars \<Rightarrow> game \<Rightarrow> loop_vars" where
  "loop_body opts now ids st0 g =
     (let st = st0\<lparr>lastgame := started_at g\<rparr>;
          numPlayers = length (concat (teams g))
      in if numPlayers > 2 \<and> \<not> includeTeamGames opts then st
         else
           (case team_states ids (opponent opts) (teams g) (None, None) of
              (None, opponentState) \<Rightarrow> st
            | (Some playerState, opponentState) \<Rightarrow>
                if opponent opts \<noteq> None \<and> opponentState = None then st
                else if \<not> truthy_num (duration g)
                then (if started_at g > now - 3 * 3600 * 1000
                      then st\<lparr>pendingGame :=
                                 (case pendingGame st of None \<Rightarrow> Some g | Some pg \<Rightarrow> Some pg),
                               pendingGames := pendingGames st + 1\<rparr>
                      else st)
                else if filter_rejects (civ opts) (civilization playerState) then st
                else if filter_rejects (map_filter opts) (map_name g) then st
                else
                  (let st1 = st\<lparr>last_game_at :=
                                  (case last_game_at st of
                                     None \<Rightarrow> Some (started_at g + duration_of g * 1000)
                                   | Some t \<Rightarrow> Some t),
                                first_game_at := Some (started_at g),
                                games_count := games_count st + 1,
                                duration_total := duration_total st + duration_of g\<rparr>
                   in if result playerState = Some ''win''
                      then st1\<lparr>wins_count := wins_count st1 + 1\<rparr>
                      else if result playerState = Some ''loss''
                      then st1\<lparr>losses_count := losses_count st1 + 1\<rparr>
                      else st1)))"

text \<open>
  \<^verbatim>\<open>for await (const game of games)\<close> over what the generator yields. When the games
  run out, the loop ends as the generator did: an exception of the generator is thrown
  on, a run cut by the fuel has no result yet.
\<close>

fun for_await ::
  "options \<Rightarrow> int \<Rightarrow> jsval list \<Rightarrow> loop_vars \<Rightarrow> game list \<Rightarrow> outcome
     \<Rightarrow> outcome + loop_vars" where
  "for_await opts now ids st [] oc =
     (if oc = TypeError \<or> oc = Unfinished then Inl oc else Inr st)"
| "for_await opts now ids st (g # gs) oc =
     (if loop_break opts now (lastgame st) g then Inr st
      else for_await opts now ids (loop_body opts now ids st g) gs oc)"

text \<open>\<^verbatim>\<open>Math.round\<close> on a quotient of counts: the nearest integer, halves upwards.\<close>

definition Math_round :: "rat \<Rightarrow> int" where
  "Math_round q = \<lfloor>q + 1 / 2\<rfloor>"

definition final_stats :: "loop_vars \<Rightarrow> stats" where
  "final_stats st =
     \<lparr>games_count = games_count st, wins_count = wins_count st,
      losses_count = losses_count st, first_game_at = first_game_at st,
      last_game_at = last_game_at st, duration_total = duration_total st,
      win_rate =
        (if losses_count st \<noteq> 0
         then of_int (Math_round (1000 * of_nat (wins_count st)
                                    / of_nat (wins_count st + losses_count st))) / 10
         else 100),
      pending_games = pendingGames st,
      pending_game_started_at = map_option started_at (pendingGame st)\<rparr>"

text \<open>
  \<^verbatim>\<open>getPlayerWinRate\<close>. \<open>now0\<close> and \<open>now\<close> are the two readings of \<^verbatim>\<open>Date.now()\<close>, the
  first for \<^verbatim>\<open>since\<close>, the second for the loop. \<open>player\<close> stands for the player object
  or the array of player objects, each given by its \<^verbatim>\<open>profile_id\<close>; a missing options
  object is \<open>None\<close>.
\<close>

definition gamesEnumerator ::
  "nat \<Rightarrow> fetcher \<Rightarrow> int \<Rightarrow> ids_arg \<Rightarrow> options \<Rightarrow> event list \<times> outcome" where
  "gamesEnumerator n f now0 player opts =
     (let playerProfileIds = as_array player;
          opponentProfileId = (case opponent opts of None \<Rightarrow> JUndefined | Some p \<Rightarrow> JInt p);
          since = (if truthy_num (timespan opts)
                   then map_option (\<lambda>ts. now0 - ts * 1000) (timespan opts)
                   else None)
      in enumPlayerGames n f (Ids playerProfileIds)
           (if truthy_num since then opponentProfileId else JNull) since)"

definition getPlayerWinRate ::
  "nat \<Rightarrow> fetcher \<Rightarrow> int \<Rightarrow> int \<Rightarrow> ids_arg \<Rightarrow> options option \<Rightarrow> outcome + stats" where
  "getPlayerWinRate n f now0 now player options_arg =
     (let opts = (case options_arg of None \<Rightarrow> default_options | Some opts \<Rightarrow> opts);
          games = gamesEnumerator n f now0 player opts
      in case for_await opts now (as_array player) initial_vars
                (map snd (yielded (fst games))) (snd games) of
           Inl e \<Rightarrow> Inl e
         | Inr st \<Rightarrow> Inr (final_stats st))"

section \<open>Auxiliary definitions for the statements\<close>

text \<open>
  What the loop body decides about one game. A game reaches the test of its duration when
  no earlier \<^verbatim>\<open>continue\<close> skips it: it passes the team-size test, \<open>playerState\<close> is
  found, and \<open>opponentState\<close> when an opponent is asked for. Such a game is pending when
  it has no duration and started less than three hours before \<open>now\<close>; it is counted
  when it has a duration and the civilization and map filters accept it.
\<close>

definition playerState_of :: "options \<Rightarrow> jsval list \<Rightarrow> game \<Rightarrow> participant option" where
  "playerState_of opts ids g = fst (team_states ids (opponent opts) (teams g) (None, None))"

definition opponentState_of :: "options \<Rightarrow> jsval list \<Rightarrow> game \<Rightarrow> participant option" where
  "opponentState_of opts ids g = snd (team_states ids (opponent opts) (teams g) (None, None))"

definition reaches_duration_test :: "options \<Rightarrow> jsval list \<Rightarrow> game \<Rightarrow> bool" where
  "reaches_duration_test opts ids g =
     (\<not> (length (concat (teams g)) > 2 \<and> \<not> includeTeamGames opts) \<and>
      playerState_of opts ids g \<noteq> None \<and>
      \<not> (opponent opts \<noteq> None \<and> opponentState_of opts ids g = None))"

definition pending :: "options \<Rightarrow> jsval list \<Rightarrow> int \<Rightarrow> game \<Rightarrow> bool" where
  "pending opts ids now g =
     (reaches_duration_test opts ids g \<and> \<not> truthy_num (duration g) \<and>
      started_at g > now - 3 * 3600 * 1000)"

definition counted :: "options \<Rightarrow> jsval list \<Rightarrow> game \<Rightarrow> bool" where
  "counted opts ids g =
     (reaches_duration_test opts ids g \<and> truthy_num (duration g) \<and>
      (case playerState_of opts ids g of
         None \<Rightarrow> False
       | Some playerState \<Rightarrow> \<not> filter_rejects (civ opts) (civilization playerState)) \<and>
      \<not> filter_rejects (map_filter opts) (map_name g))"

definition player_result :: "options \<Rightarrow> jsval list \<Rightarrow> game \<Rightarrow> string option" where
  "player_result opts ids g =
     (case playerState_of opts ids g of None \<Rightarrow> None | Some playerState \<Rightarrow> result playerState)"

text \<open>
  The games the loop takes from the sequence before it breaks, \<open>lg\<close> being \<open>lastgame\<close>
  at the head of the sequence.
\<close>

fun consumed :: "options \<Rightarrow> int \<Rightarrow> int \<Rightarrow> game list \<Rightarrow> game list" where
  "consumed opts now lg [] = []"
| "consumed opts now lg (g # gs) =
     (if loop_break opts now lg g then [] else g # consumed opts now (started_at g) gs)"

text \<open>
  Fetching on demand, as a check of the events of a run. For each position of the
  \<^verbatim>\<open>states\<close> array the check keeps the page loaded last (the payload its request got)
  and the number of games yielded from it since. A yield is allowed when it is the next
  game of the loaded page. A request is allowed for page 1 when nothing is loaded, and
  otherwise for the page after the loaded one, once all games of the loaded page have
  been yielded and its offset plus their number is below its total.
\<close>

type_synonym loaded = "nat \<Rightarrow> (page_json \<times> nat) option"

fun allowed :: "loaded \<Rightarrow> event \<Rightarrow> bool" where
  "allowed mon (Yielded i g) =
     (case mon i of
        None \<Rightarrow> False
      | Some (json, k) \<Rightarrow> k < length (games json) \<and> g = games json ! k)"
| "allowed mon (Fetched i rq) =
     (case mon i of
        None \<Rightarrow> rq_page rq = 1
      | Some (json, k) \<Rightarrow>
          k = length (games json) \<and> offset json + int k < total_count json \<and>
          rq_page rq = page json + 1)"

fun observe :: "fetcher \<Rightarrow> loaded \<Rightarrow> event \<Rightarrow> loaded" where
  "observe f mon (Yielded i g) = mon(i := map_option (\<lambda>(json, k). (json, Suc k)) (mon i))"
| "observe f mon (Fetched i rq) = mon(i := map_option (\<lambda>json. (json, 0)) (f rq))"

fun on_demand :: "fetcher \<Rightarrow> loaded \<Rightarrow> event list \<Rightarrow> bool" where
  "on_demand f mon [] = True"
| "on_demand f mon (e # es) = (allowed mon e \<and> on_demand f (observe f mon e) es)"

text \<open>The payload of a state, and a state as the check sees it.\<close>

definition payload :: "fetch_state \<Rightarrow> page_json" where
  "payload s =
     \<lparr>page = page s, offset = offset s, total_count = total_count s, games = games s\<rparr>"

definition seen_as :: "(page_json \<times> nat) option \<Rightarrow> fetch_state option \<Rightarrow> bool" where
  "seen_as m so =
     (case so of
        None \<Rightarrow> True
      | Some s \<Rightarrow> m = Some (payload s, index s) \<and> index s \<le> length (games s))"

text \<open>
  A source that answers every request, as the merge expects of its environment: the
  history of each profile is served in pages of \<open>per_page\<close> games, page 1 first, each
  page with its number, the number of games on the pages before it and the length of
  the history. Server-side filters are part of what the history is.
\<close>

definition paged_source :: "nat \<Rightarrow> (int \<Rightarrow> game list) \<Rightarrow> fetcher" where
  "paged_source per_page hist rq =
     (case rq_profile_id rq of
        JInt p \<Rightarrow>
          (let off = (nat (rq_page rq) - 1) * per_page in
           Some \<lparr>page = rq_page rq, offset = int off,
                 total_count = int (length (hist p)),
                 games = take per_page (drop off (hist p))\<rparr>)
      | _ \<Rightarrow> None)"

text \<open>The state of a profile whose page \<open>m\<close> is loaded and whose cursor is at \<open>k\<close>.\<close>

definition page_view ::
  "nat \<Rightarrow> game list \<Rightarrow> jsval \<Rightarrow> jsval \<Rightarrow> nat \<Rightarrow> nat \<Rightarrow> fetch_state" where
  "page_view per_page history pid opp m k =
     \<lparr>page = int m, offset = int ((m - 1) * per_page),
      total_count = int (length history),
      games = take per_page (drop ((m - 1) * per_page) history),
      profile_id = pid, opponent_profile_id = opp, index = k\<rparr>"

text \<open>
  A state follows the history of profile \<open>p\<close> at position \<open>c\<close> when it is the view of
  some page of that history and its cursor stands \<open>c\<close> games from the start of the
  history. A history is newest first when no game starts after an earlier one of the
  list.
\<close>

definition tracks ::
  "nat \<Rightarrow> (int \<Rightarrow> game list) \<Rightarrow> jsval \<Rightarrow> int \<times> nat \<Rightarrow> fetch_state option \<Rightarrow> bool" where
  "tracks per_page hist opp pc so =
     (\<exists>m k. so = Some (page_view per_page (hist (fst pc)) (JInt (fst pc)) opp m k) \<and>
            1 \<le> m \<and>
            k \<le> length (take per_page (drop ((m - 1) * per_page) (hist (fst pc)))) \<and>
            (m - 1) * per_page + k = snd pc)"

text \<open>
  A state is ready when it follows a history and has a current game exactly when the
  history has a game left at that position, which is then its current game.
\<close>

definition ready ::
  "nat \<Rightarrow> (int \<Rightarrow> game list) \<Rightarrow> jsval \<Rightarrow> int \<times> nat \<Rightarrow> fetch_state option \<Rightarrow> bool" where
  "ready per_page hist opp pc so =
     (tracks per_page hist opp pc so \<and>
      (case so of
         None \<Rightarrow> False
       | Some s \<Rightarrow>
           (index s < length (games s)) = (snd pc < length (hist (fst pc))) \<and>
           (snd pc < length (hist (fst pc)) \<longrightarrow>
              games s ! index s = hist (fst pc) ! snd pc)))"

definition newest_first :: "game list \<Rightarrow> bool" where
  "newest_first gs = sorted_wrt (\<lambda>a b. started_at b \<le> started_at a) gs"

text \<open>The games a run yields from the state at position \<open>j\<close>, in the order of the run.\<close>

definition yielded_from :: "nat \<Rightarrow> event list \<Rightarrow> game list" where
  "yielded_from j evs = map snd (filter (\<lambda>y. fst y = j) (yielded evs))"

text \<open>Sample data: a one-against-one game, and two histories.\<close>

definition duel ::
  "int \<Rightarrow> int option \<Rightarrow> int \<Rightarrow> string option \<Rightarrow> int \<Rightarrow> string option \<Rightarrow> game" where
  "duel t d p r q r' =
     \<lparr>started_at = t, duration = d, map_name = ''Dry Arabia'',
      teams = [[\<lparr>player_profile_id = p, civilization = ''english'', result = r\<rparr>],
               [\<lparr>player_profile_id = q, civilization = ''french'', result = r'\<rparr>]]\<rparr>"

definition sample_history :: "int \<Rightarrow> game list" where
  "sample_history p =
     (if p = 1 then
        [duel 5000 (Some 600) 1 (Some ''win'') 7 (Some ''loss''),
         duel 3000 (Some 700) 1 (Some ''loss'') 8 (Some ''win''),
         duel 1000 (Some 800) 1 (Some ''loss'') 9 (Some ''win'')]
      else if p = 2 then
        [duel 4000 (Some 500) 2 (Some ''win'') 7 (Some ''loss''),
         duel 3000 (Some 400) 2 None 8 None]
      else [])"

text \<open>
  Three histories around \<open>T = 1700000000000\<close>: games at \<open>T\<close>, an hour before and six
  hours before; games one hour and thirty hours before; and a game in progress at \<open>T\<close>,
  a finished one half an hour before and an abandoned one four hours before.
\<close>

definition session_history :: "game list" where
  "session_history =
     [duel 1700000000000 (Some 1200) 1 (Some ''win'') 7 (Some ''loss''),
      duel 1699996400000 (Some 900) 1 (Some ''loss'') 8 (Some ''win''),
      duel 1699978400000 (Some 800) 1 (Some ''win'') 9 (Some ''loss'')]"


definition pending_history :: "game list" where
  "pending_history =
     [duel 1700000000000 None 1 None 7 None,
      duel 1699998200000 (Some 600) 1 (Some ''win'') 8 (Some ''loss''),
      duel 1699985600000 None 1 None 9 None]"

text \<open>A source that answers for profile 1 only: every request for another profile fails.\<close>

definition outage_source :: fetcher where
  "outage_source rq =
     (if rq_profile_id rq = JInt 1 then paged_source 2 sample_history rq else None)"

text \<open>Two states whose current games started at the same time.\<close>

definition tie_states :: "fetch_state option list" where
  "tie_states =
     [Some (page_view 2 (sample_history 1) (JInt 1) JNull 1 1),
      Some (page_view 2 (sample_history 2) (JInt 2) JNull 1 1)]"

section \<open>The enumerator: arguments, failed requests, ties\<close>

text \<open>
  Claim C8, as the code has it. When an element of \<open>profileIds\<close> is not an integer, or
  \<open>opponentProfileId\<close> is truthy and not an integer, the generator ends at once with
  its invalid-argument return: it yields no game and issues no request. The test of the
  opponent is \<^verbatim>\<open>opponentProfileId && !Number.isInteger(opponentProfileId)\<close>, so that a
  falsy value counts as no opponent at all.
\<close>

theorem enumPlayerGames_invalid_argument:
  assumes "(\<exists>p\<in>set (as_array profileIds). \<not> Number_isInteger p) \<or>
           (truthy opponentProfileId \<and> \<not> Number_isInteger opponentProfileId)"
  shows "enumPlayerGames n f profileIds opponentProfileId since = ([], InvalidArgument)"
  using assms by (auto simp: enumPlayerGames_def Let_def filter_empty_conv)

theorem enumPlayerGames_invalid_argument_witness:
  "enumPlayerGames 3 (paged_source 2 sample_history) (Ids [JInt 1, JStr ''2'']) JNull None =
     ([], InvalidArgument) \<and>
   enumPlayerGames 3 (paged_source 2 sample_history) (Id (JInt 1)) JNonInt None =
     ([], InvalidArgument)"
  using enumPlayerGames_invalid_argument
          [of "Ids [JInt 1, JStr ''2'']" JNull 3 "paged_source 2 sample_history" None]
        enumPlayerGames_invalid_argument
          [of "Id (JInt 1)" JNonInt 3 "paged_source 2 sample_history" None]
  by simp

text \<open>
  Claim C8 as stated, for every opponent that is given and is not an integer, fails on a
  falsy one: with \<^verbatim>\<open>NaN\<close> or the empty string as \<open>opponentProfileId\<close> the run is not
  rejected, requests both pages of profile 1 and yields its three games.
\<close>

theorem enumPlayerGames_falsy_opponent_counterexample:
  "\<not> Number_isInteger JNaN \<and>
   enumPlayerGames 4 (paged_source 2 sample_history) (Ids [JInt 1]) JNaN None \<noteq>
     ([], InvalidArgument) \<and>
   snd (enumPlayerGames 4 (paged_source 2 sample_history) (Ids [JInt 1]) JNaN None) = Exhausted \<and>
   fetched (fst (enumPlayerGames 4 (paged_source 2 sample_history) (Ids [JInt 1]) JNaN None)) =
     [(0, games_request (JInt 1) JNaN None 1), (0, games_request (JInt 1) JNaN None 2)] \<and>
   map snd (yielded (fst (enumPlayerGames 4 (paged_source 2 sample_history) (Ids [JInt 1])
                            JNaN None))) = sample_history 1 \<and>
   \<not> Number_isInteger (JStr []) \<and>
   snd (enumPlayerGames 4 (paged_source 2 sample_history) (Ids [JInt 1]) (JStr []) None) =
     Exhausted \<and>
   map snd (yielded (fst (enumPlayerGames 4 (paged_source 2 sample_history) (Ids [JInt 1])
                            (JStr []) None))) = sample_history 1"
  by (simp add: enumPlayerGames_def fetchPlayerGames_def games_request_def eval_nat_numeral
        paged_source_def sample_history_def needs_new_page_def)

lemma yielded_append: "yielded (xs @ ys) = yielded xs @ yielded ys"
  by (induction xs rule: yielded.induct) simp_all

lemma fetch_new_pages_yielded: "yielded (fst (fetch_new_pages f opp since i ss)) = []"
proof (induction ss arbitrary: i)
  case Nil
  show ?case by simp
next
  case (Cons a ss)
  show ?case by (cases a) (simp_all add: Cons.IH)
qed

lemma fetch_new_pages_null:
  assumes "None \<in> set ss"
  shows "snd (fetch_new_pages f opp since i ss) = None"
  using assms
proof (induction ss arbitrary: i)
  case Nil
  then show ?case by simp
next
  case (Cons a ss)
  then show ?case by (cases a) auto
qed

lemma enumPlayerGames_null_state:
  assumes "filter (\<lambda>p. \<not> Number_isInteger p) ids = []"
    and "\<not> truthy opp \<or> Number_isInteger opp"
    and "p \<in> set ids" and "f (games_request p opp since 1) = None"
  shows "snd (enumPlayerGames (Suc n) f (Ids ids) opp since) = TypeError \<and>
         yielded (fst (enumPlayerGames (Suc n) f (Ids ids) opp since)) = []"
proof -
  define states where "states = map (\<lambda>p. fetchPlayerGames f p opp since 1) ids"
  have "fetchPlayerGames f p opp since 1 = None"
    using assms(4) by (simp add: fetchPlayerGames_def)
  then have "None \<in> set states"
    using assms(3) unfolding states_def by force
  from fetch_new_pages_null[OF this, of f opp since 0]
  have r: "snd (fetch_new_pages f opp since 0 states) = None" .
  have l: "enum_loop (Suc n) f opp since states =
             (fst (fetch_new_pages f opp since 0 states), TypeError)"
    using r by (simp add: case_prod_beta)
  have y: "yielded (map (\<lambda>(i, p). Fetched i (games_request p opp since 1)) xs) = []" for xs
    by (induction xs) (simp_all add: case_prod_beta)
  show ?thesis
    using assms(1,2) l y
    by (auto simp: enumPlayerGames_def Let_def states_def case_prod_beta yielded_append
          fetch_new_pages_yielded)
qed

text \<open>
  Claim C2 says that a profile whose requests fail contributes no game while the other
  profiles are enumerated as before. The code does not do that: the failed request
  leaves \<^verbatim>\<open>null\<close> in \<^verbatim>\<open>states\<close>, and the next round reads \<^verbatim>\<open>s.index\<close> of it, so
  that any run in which a first page fails throws before it yields a game (the lemma
  above). With profile 1 answered and profile 2 failing, the run issues the two
  first-page requests and throws, whereas profile 1 alone is enumerated in full.
\<close>

theorem enumPlayerGames_failed_fetch_throws:
  "enumPlayerGames 4 outage_source (Ids [JInt 1, JInt 2]) JNull None =
     ([Fetched 0 (games_request (JInt 1) JNull None 1),
       Fetched 1 (games_request (JInt 2) JNull None 1)], TypeError) \<and>
   map snd (yielded (fst (enumPlayerGames 4 outage_source (Ids [JInt 1]) JNull None))) =
     sample_history 1 \<and>
   snd (enumPlayerGames 4 outage_source (Ids [JInt 1]) JNull None) = Exhausted"
  by (simp add: enumPlayerGames_def outage_source_def fetchPlayerGames_def
        games_request_def eval_nat_numeral paged_source_def sample_history_def
        needs_new_page_def)

lemma reduce_firstState_acc:
  assumes "reduce_firstState k prev ss = Some (Some (i, s))"
  shows "(prev = Some (i, s) \<or>
            (k \<le> i \<and> i < k + length ss \<and> ss ! (i - k) = Some s \<and> index s < length (games s)))
       \<and> (\<forall>j p. prev = Some (j, p) \<longrightarrow>
             (j, p) = (i, s) \<or>
             (k \<le> i \<and> started_at (games p ! index p) < started_at (games s ! index s)))
       \<and> (\<forall>j s'. j < length ss \<and> ss ! j = Some s' \<and> index s' < length (games s') \<longrightarrow>
             started_at (games s' ! index s') \<le> started_at (games s ! index s) \<and>
             (started_at (games s' ! index s') = started_at (games s ! index s) \<longrightarrow>
                prev = Some (i, s) \<or> i \<le> k + j))"
  using assms
proof (induction ss arbitrary: k prev)
  case Nil
  then show ?case by simp
next
  case (Cons a ss)
  show ?case
  proof (cases a)
    case None
    with Cons.prems show ?thesis by simp
  next
    case (Some s0)
    show ?thesis
    proof (cases "index s0 \<ge> length (games s0)")
      case True
      with Some Cons.prems have r: "reduce_firstState (Suc k) prev ss = Some (Some (i, s))"
        by simp
      note ih = Cons.IH[OF r]
      show ?thesis
        apply (intro conjI allI impI)
        subgoal using ih by (auto simp: nth_Cons' Some)
        subgoal using ih by auto
        subgoal for j s' using ih True Some by (cases j) auto
        subgoal for j s' using ih True Some by (cases j) auto
        done
    next
      case False
      show ?thesis
      proof (cases prev)
        case None
        with False Some Cons.prems
        have r: "reduce_firstState (Suc k) (Some (k, s0)) ss = Some (Some (i, s))"
          by simp
        note ih = Cons.IH[OF r]
        show ?thesis
          apply (intro conjI allI impI)
          subgoal using ih False by (auto simp: nth_Cons' Some)
          subgoal using None by simp
          subgoal for j s' using ih False Some by (cases j) auto
          subgoal for j s' using ih False Some None by (cases j) auto
          done
      next
        case (Some jp)
        obtain j0 p0 where jp: "jp = (j0, p0)" by (cases jp)
        show ?thesis
        proof (cases "started_at (games p0 ! index p0) < started_at (games s0 ! index s0)")
          case True
          with False Some jp \<open>a = Some s0\<close> Cons.prems
          have r: "reduce_firstState (Suc k) (Some (k, s0)) ss = Some (Some (i, s))"
            by simp
          note ih = Cons.IH[OF r]
          show ?thesis
            apply (intro conjI allI impI)
            subgoal using ih False by (auto simp: nth_Cons' \<open>a = Some s0\<close>)
            subgoal using ih True Some jp by auto
            subgoal for j s' using ih False \<open>a = Some s0\<close> by (cases j) auto
            subgoal for j s' using ih False \<open>a = Some s0\<close> Some jp True by (cases j) auto
            done
        next
          case nlt: False
          with False Some jp \<open>a = Some s0\<close> Cons.prems
          have r: "reduce_firstState (Suc k) prev ss = Some (Some (i, s))"
            by simp
          note ih = Cons.IH[OF r]
          show ?thesis
            apply (intro conjI allI impI)
            subgoal using ih False by (auto simp: nth_Cons' \<open>a = Some s0\<close>)
            subgoal using ih Some jp by auto
            subgoal for j s' using ih False \<open>a = Some s0\<close> Some jp nlt by (cases j) auto
            subgoal for j s' using ih False \<open>a = Some s0\<close> Some jp nlt by (cases j) auto
            done
        qed
      qed
    qed
  qed
qed

lemma fetchPlayerGames_profile_id:
  "fetchPlayerGames f p opp since pg = Some s \<Longrightarrow> profile_id s = p"
  by (auto simp: fetchPlayerGames_def split: option.splits)

lemma fetch_new_pages_profile_id:
  assumes "snd (fetch_new_pages f opp since i ss) = Some ss'"
  shows "length ss' = length ss \<and>
         (\<forall>j sj s'. j < length ss \<and> ss ! j = Some sj \<and> ss' ! j = Some s' \<longrightarrow>
             profile_id s' = profile_id sj)"
  using assms
proof (induction ss arbitrary: i ss')
  case Nil
  then show ?case by simp
next
  case (Cons a ss)
  show ?case
  proof (cases a)
    case None
    with Cons.prems show ?thesis by simp
  next
    case (Some s)
    define s1 where "s1 = (if needs_new_page s
        then fetchPlayerGames f (profile_id s) opp since (page s + 1) else Some s)"
    from Cons.prems Some obtain t where
      t: "snd (fetch_new_pages f opp since (Suc i) ss) = Some t" and ss': "ss' = s1 # t"
      by (auto simp: s1_def split: if_splits)
    note ih = Cons.IH[OF t]
    have h: "profile_id s' = profile_id s" if "s1 = Some s'" for s'
      using that fetchPlayerGames_profile_id[of f "profile_id s" opp since "page s + 1" s']
      by (auto simp: s1_def split: if_splits)
    show ?thesis
    proof (intro conjI allI impI)
      show "length ss' = length (a # ss)" using ih ss' by simp
    next
      fix j sj s'
      assume "j < length (a # ss) \<and> (a # ss) ! j = Some sj \<and> ss' ! j = Some s'"
      then show "profile_id s' = profile_id sj"
        using ih h ss' Some by (cases j) auto
    qed
  qed
qed

text \<open>
  Claim C9. In a round that yields, the game yielded is the current game of
  \<open>firstState\<close>, the state at position \<open>i\<close> of the array. No state with a game left
  has a later current game, and a state whose current game started at exactly the same
  time stands at a position from \<open>i\<close> on: on a tie the earliest position is taken. The
  positions are those of \<open>profileIds\<close>: the array is built in that order, and the fetch
  of a new page keeps the profile of each position.
\<close>

theorem firstState_earliest_on_ties:
  assumes "fetch_new_pages f opp since 0 states = (evs, Some states')"
    and "reduce_firstState 0 None states' = Some (Some (i, s))"
  shows "yielded (fst (enum_loop (Suc n) f opp since states)) =
           (i, games s ! index s) #
             yielded (fst (enum_loop n f opp since
                             (states'[i := Some (s\<lparr>index := index s + 1\<rparr>)]))) \<and>
         i < length states' \<and> states' ! i = Some s \<and> index s < length (games s) \<and>
         (\<forall>j s'. j < length states' \<and> states' ! j = Some s' \<and>
                 index s' < length (games s') \<longrightarrow>
            started_at (games s' ! index s') \<le> started_at (games s ! index s) \<and>
            (started_at (games s' ! index s') = started_at (games s ! index s) \<longrightarrow> i \<le> j)) \<and>
         length states' = length states \<and>
         (\<forall>j sj s'. j < length states \<and> states ! j = Some sj \<and> states' ! j = Some s' \<longrightarrow>
            profile_id s' = profile_id sj)"
proof -
  have 4: "length states' = length states \<and>
         (\<forall>j sj s'. j < length states \<and> states ! j = Some sj \<and> states' ! j = Some s' \<longrightarrow>
            profile_id s' = profile_id sj)"
    by (rule fetch_new_pages_profile_id[of f opp since 0]) (simp add: assms(1))
  have ev: "yielded evs = []"
    using fetch_new_pages_yielded[of f opp since 0 states] assms(1) by simp
  have 1: "yielded (fst (enum_loop (Suc n) f opp since states)) =
           (i, games s ! index s) #
             yielded (fst (enum_loop n f opp since
                             (states'[i := Some (s\<lparr>index := index s + 1\<rparr>)])))"
    using assms ev by (simp add: yielded_append split: prod.splits)
  note acc = reduce_firstState_acc[OF assms(2)]
  from acc have 2: "i < length states' \<and> states' ! i = Some s \<and> index s < length (games s)"
    by simp
  have 3: "started_at (games s' ! index s') \<le> started_at (games s ! index s) \<and>
            (started_at (games s' ! index s') = started_at (games s ! index s) \<longrightarrow> i \<le> j)"
    if "j < length states' \<and> states' ! j = Some s' \<and> index s' < length (games s')" for j s'
    using acc that by auto
  show ?thesis using 1 2 3 4 by blast
qed

theorem firstState_earliest_on_ties_witness:
  "fetch_new_pages (paged_source 2 sample_history) JNull None 0 tie_states =
     ([], Some tie_states) \<and>
   started_at (games (page_view 2 (sample_history 1) (JInt 1) JNull 1 1) ! 1) =
   started_at (games (page_view 2 (sample_history 2) (JInt 2) JNull 1 1) ! 1) \<and>
   yielded (fst (enum_loop 1 (paged_source 2 sample_history) JNull None tie_states)) =
     [(0, sample_history 1 ! 1)]"
proof -
  have f: "fetch_new_pages (paged_source 2 sample_history) JNull None 0 tie_states =
             ([], Some tie_states)"
    by (simp add: tie_states_def page_view_def sample_history_def needs_new_page_def)
  have r: "reduce_firstState 0 None tie_states =
             Some (Some (0, page_view 2 (sample_history 1) (JInt 1) JNull 1 1))"
    by (simp add: tie_states_def page_view_def sample_history_def duel_def)
  have t: "started_at (games (page_view 2 (sample_history 1) (JInt 1) JNull 1 1) ! 1) =
           started_at (games (page_view 2 (sample_history 2) (JInt 2) JNull 1 1) ! 1)"
    by (simp add: page_view_def sample_history_def duel_def)
  from firstState_earliest_on_ties[OF f r, of 0] f t show ?thesis
    by (simp add: page_view_def sample_history_def)
qed

section \<open>The loop of getPlayerWinRate\<close>

lemma loop_body_unreached:
  assumes "\<not> reaches_duration_test opts ids g"
  shows "loop_body opts now ids st g = st\<lparr>lastgame := started_at g\<rparr>"
proof (cases "team_states ids (opponent opts) (teams g) (None, None)")
  case (Pair ps os)
  with assms show ?thesis
    by (cases ps)
       (auto simp: loop_body_def reaches_duration_test_def playerState_of_def
          opponentState_of_def Let_def)
qed

lemma loop_body_reached:
  assumes "reaches_duration_test opts ids g" and "playerState_of opts ids g = Some p"
  shows "loop_body opts now ids st g =
     (if \<not> truthy_num (duration g)
      then (if started_at g > now - 3 * 3600 * 1000
            then st\<lparr>lastgame := started_at g,
                    pendingGame := (case pendingGame st of None \<Rightarrow> Some g | Some pg \<Rightarrow> Some pg),
                    pendingGames := pendingGames st + 1\<rparr>
            else st\<lparr>lastgame := started_at g\<rparr>)
      else if filter_rejects (civ opts) (civilization p) then st\<lparr>lastgame := started_at g\<rparr>
      else if filter_rejects (map_filter opts) (map_name g) then st\<lparr>lastgame := started_at g\<rparr>
      else if result p = Some ''win''
      then st\<lparr>lastgame := started_at g,
              last_game_at := (case last_game_at st of
                                 None \<Rightarrow> Some (started_at g + duration_of g * 1000)
                               | Some t \<Rightarrow> Some t),
              first_game_at := Some (started_at g),
              games_count := games_count st + 1,
              duration_total := duration_total st + duration_of g,
              wins_count := wins_count st + 1\<rparr>
      else if result p = Some ''loss''
      then st\<lparr>lastgame := started_at g,
              last_game_at := (case last_game_at st of
                                 None \<Rightarrow> Some (started_at g + duration_of g * 1000)
                               | Some t \<Rightarrow> Some t),
              first_game_at := Some (started_at g),
              games_count := games_count st + 1,
              duration_total := duration_total st + duration_of g,
              losses_count := losses_count st + 1\<rparr>
      else st\<lparr>lastgame := started_at g,
              last_game_at := (case last_game_at st of
                                 None \<Rightarrow> Some (started_at g + duration_of g * 1000)
                               | Some t \<Rightarrow> Some t),
              first_game_at := Some (started_at g),
              games_count := games_count st + 1,
              duration_total := duration_total st + duration_of g\<rparr>)"
proof (cases "team_states ids (opponent opts) (teams g) (None, None)")
  case (Pair ps os)
  with assms have ps: "ps = Some p" by (simp add: playerState_of_def)
  from assms(1) Pair ps have a: "(length (concat (teams g)) > 2 \<and> \<not> includeTeamGames opts) = False"
    and b: "(opponent opts \<noteq> None \<and> os = None) = False"
    by (simp_all add: reaches_duration_test_def opponentState_of_def)
  show ?thesis
    apply (simp only: loop_body_def Let_def Pair ps prod.case option.case)
    apply (simp only: a b if_False)
    apply simp
    done
qed


lemma loop_body_cases:
  "loop_body opts now ids st g =
     (if counted opts ids g then
        (let st1 = st\<lparr>lastgame := started_at g,
                      last_game_at := (case last_game_at st of
                                         None \<Rightarrow> Some (started_at g + duration_of g * 1000)
                                       | Some t \<Rightarrow> Some t),
                      first_game_at := Some (started_at g),
                      games_count := games_count st + 1,
                      duration_total := duration_total st + duration_of g\<rparr>
         in if player_result opts ids g = Some ''win''
            then st1\<lparr>wins_count := wins_count st + 1\<rparr>
            else if player_result opts ids g = Some ''loss''
            then st1\<lparr>losses_count := losses_count st + 1\<rparr>
            else st1)
      else if pending opts ids now g then
        st\<lparr>lastgame := started_at g,
           pendingGame := (case pendingGame st of None \<Rightarrow> Some g | Some pg \<Rightarrow> Some pg),
           pendingGames := pendingGames st + 1\<rparr>
      else st\<lparr>lastgame := started_at g\<rparr>)"
proof (cases "reaches_duration_test opts ids g")
  case False
  then have "\<not> counted opts ids g" "\<not> pending opts ids now g"
    by (simp_all add: counted_def pending_def)
  then show ?thesis by (simp add: loop_body_unreached[OF False])
next
  case True
  then obtain p where p: "playerState_of opts ids g = Some p"
    by (auto simp: reaches_duration_test_def)
  have c: "counted opts ids g =
             (truthy_num (duration g) \<and> \<not> filter_rejects (civ opts) (civilization p) \<and>
              \<not> filter_rejects (map_filter opts) (map_name g))"
    by (simp add: counted_def True p)
  have q: "pending opts ids now g =
             (\<not> truthy_num (duration g) \<and> started_at g > now - 3 * 3600 * 1000)"
    by (simp add: pending_def True)
  have r: "player_result opts ids g = result p"
    by (simp add: player_result_def p)
  show ?thesis
    unfolding loop_body_reached[OF True p] c q r Let_def by simp
qed

lemma lastgame_loop_body: "lastgame (loop_body opts now ids st g) = started_at g"
  by (simp add: loop_body_cases Let_def)

lemma for_await_consumed:
  "for_await opts now ids st gs oc =
     (if consumed opts now (lastgame st) gs = gs \<and> (oc = TypeError \<or> oc = Unfinished)
      then Inl oc
      else Inr (foldl (loop_body opts now ids) st (consumed opts now (lastgame st) gs)))"
proof (induction gs arbitrary: st)
  case Nil
  show ?case by simp
next
  case (Cons g gs)
  show ?case
    by (simp add: Cons.IH lastgame_loop_body)
qed

lemma getPlayerWinRate_consumed:
  assumes "getPlayerWinRate n f now0 now player (Some opts) = Inr stats"
  shows "stats = final_stats (foldl (loop_body opts now (as_array player)) initial_vars
            (consumed opts now 0 (map snd (yielded (fst (gamesEnumerator n f now0 player opts))))))"
  using assms
  by (auto simp: getPlayerWinRate_def Let_def for_await_consumed initial_vars_def split: sum.splits if_splits)

lemma consumed_prefix_break:
  assumes "\<forall>k < length pre. \<not> loop_break opts now (if k = 0 then lg else started_at (pre ! (k - 1))) (pre ! k)"
    and "loop_break opts now (if pre = [] then lg else started_at (last pre)) g"
  shows "consumed opts now lg (pre @ g # rest) = pre"
  using assms
proof (induction pre arbitrary: lg)
  case Nil
  then show ?case by simp
next
  case (Cons a pre)
  from Cons.prems(1)[rule_format, of 0] have a: "\<not> loop_break opts now lg a" by simp
  have 1: "\<forall>k<length pre. \<not> loop_break opts now (if k = 0 then started_at a else started_at (pre ! (k - 1))) (pre ! k)"
  proof (intro allI impI)
    fix k assume "k < length pre"
    with Cons.prems(1)[rule_format, of "Suc k"] show "\<not> loop_break opts now (if k = 0 then started_at a else started_at (pre ! (k - 1))) (pre ! k)"
      by (cases k) auto
  qed
  have 2: "loop_break opts now (if pre = [] then started_at a else started_at (last pre)) g"
    using Cons.prems(2) by (cases pre) auto
  show ?case using a Cons.IH[OF 1 2] by simp
qed

lemma getPlayerWinRate_break:
  assumes "consumed opts now 0 (map snd (yielded (fst (gamesEnumerator n f now0 player opts)))) = pre"
     and "pre \<noteq> map snd (yielded (fst (gamesEnumerator n f now0 player opts)))"
  shows "getPlayerWinRate n f now0 now player (Some opts) =
           Inr (final_stats (foldl (loop_body opts now (as_array player)) initial_vars pre))"
  using assms
  by (auto simp: getPlayerWinRate_def Let_def for_await_consumed initial_vars_def split: sum.splits if_splits)

section \<open>The win rate\<close>

lemma final_stats_win_rate:
  "win_rate (final_stats st) =
     (if losses_count st \<noteq> 0
      then of_int (Math_round (1000 * of_nat (wins_count st)
                                 / of_nat (wins_count st + losses_count st))) / 10
      else 100)"
  by (simp add: final_stats_def)

lemma getPlayerWinRate_final:
  assumes "getPlayerWinRate n f now0 now player options_arg = Inr stats"
  shows "\<exists>st. stats = final_stats st"
  using assms
  by (auto simp: getPlayerWinRate_def Let_def split: sum.splits)

text \<open>
  Claim C5. Whatever \<open>getPlayerWinRate\<close> returns, its \<open>win_rate\<close> is 100 when
  \<open>losses_count\<close> is 0, and otherwise the rounding of \<open>1000 * wins / (wins + losses)\<close>
  divided by 10: 70 for 7 wins and 3 losses, 33.3 for 1 win and 2 losses. The quotient
  is a rational number here, and \<open>Math_round\<close> the nearest integer, halves upwards.
\<close>

theorem win_rate_formula:
  assumes "getPlayerWinRate n f now0 now player options_arg = Inr stats"
  shows "(losses_count stats = 0 \<longrightarrow> win_rate stats = 100) \<and>
         (losses_count stats \<ge> 1 \<longrightarrow>
            win_rate stats =
              of_int (Math_round (1000 * of_nat (wins_count stats)
                                    / of_nat (wins_count stats + losses_count stats))) / 10) \<and>
         (wins_count stats = 7 \<and> losses_count stats = 3 \<longrightarrow> win_rate stats = 70) \<and>
         (wins_count stats = 1 \<and> losses_count stats = 2 \<longrightarrow> win_rate stats = 333 / 10)"
proof -
  obtain st where st: "stats = final_stats st"
    using getPlayerWinRate_final[OF assms] by blast
  have fields: "wins_count stats = wins_count st" "losses_count stats = losses_count st"
    by (simp_all add: st final_stats_def)
  have wr: "win_rate stats =
     (if losses_count stats \<noteq> 0
      then of_int (Math_round (1000 * of_nat (wins_count stats)
                                 / of_nat (wins_count stats + losses_count stats))) / 10
      else 100)"
    unfolding fields by (simp add: st final_stats_win_rate)
  have r73: "Math_round (1000 * of_nat 7 / of_nat (7 + 3)) = 700"
    unfolding Math_round_def by (simp add: floor_eq_iff)
  have r12: "Math_round (1000 * of_nat 1 / of_nat (1 + 2)) = 333"
    unfolding Math_round_def by (simp add: floor_eq_iff)
  show ?thesis
    apply (intro conjI impI)
    subgoal using wr by simp
    subgoal using wr by simp
    subgoal using wr r73 by simp
    subgoal using wr r12 by simp
    done
qed

theorem win_rate_formula_witness:
  "getPlayerWinRate 4 (paged_source 2 sample_history) 0 6000 (Id (JInt 1)) None =
     Inr \<lparr>games_count = 3, wins_count = 1, losses_count = 2,
          first_game_at = Some 1000, last_game_at = Some 605000,
          duration_total = 2100, win_rate = 333 / 10, pending_games = 0,
          pending_game_started_at = None\<rparr>"
proof -
  have run: "getPlayerWinRate 4 (paged_source 2 sample_history) 0 6000 (Id (JInt 1)) None =
     Inr \<lparr>games_count = 3, wins_count = 1, losses_count = 2,
          first_game_at = Some 1000, last_game_at = Some 605000,
          duration_total = 2100,
          win_rate = of_int (Math_round (1000 * of_nat 1 / of_nat (1 + 2))) / 10,
          pending_games = 0, pending_game_started_at = None\<rparr>"
    by (simp add: getPlayerWinRate_def gamesEnumerator_def enumPlayerGames_def fetchPlayerGames_def
          games_request_def eval_nat_numeral paged_source_def sample_history_def
          default_options_def initial_vars_def loop_break_def loop_body_def duel_def
          teamPlayer_def teamOpponent_def final_stats_def needs_new_page_def duration_of_def
          Let_def)
  from win_rate_formula[OF run] show ?thesis using run by simp
qed

lemma loop_body_wins_losses:
  assumes "wins_count st + losses_count st \<le> games_count st"
  shows "wins_count (loop_body opts now ids st g) + losses_count (loop_body opts now ids st g)
           \<le> games_count (loop_body opts now ids st g)"
  using assms by (simp add: loop_body_cases Let_def)

lemma for_await_wins_losses:
  assumes "for_await opts now ids st gs oc = Inr st'"
    and "wins_count st + losses_count st \<le> games_count st"
  shows "wins_count st' + losses_count st' \<le> games_count st'"
  using assms
proof (induction gs arbitrary: st)
  case Nil
  then show ?case by (auto split: if_splits)
next
  case (Cons g gs)
  show ?case
  proof (cases "loop_break opts now (lastgame st) g")
    case True
    with Cons.prems show ?thesis by simp
  next
    case False
    with Cons.prems have "for_await opts now ids (loop_body opts now ids st g) gs oc = Inr st'"
      by simp
    from Cons.IH[OF this loop_body_wins_losses[OF Cons.prems(2)]] show ?thesis .
  qed
qed

text \<open>
  Claim C10. Whatever \<open>getPlayerWinRate\<close> returns, \<open>wins_count + losses_count\<close> is at
  most \<open>games_count\<close>; and a counted game whose result for the player is neither
  \<open>win\<close> nor \<open>loss\<close> adds one to \<open>games_count\<close> and its duration to the total, and
  leaves \<open>wins_count\<close> and \<open>losses_count\<close> as they were.
\<close>

theorem wins_losses_le_games:
  "(getPlayerWinRate n f now0 now player options_arg = Inr stats \<longrightarrow>
      wins_count stats + losses_count stats \<le> games_count stats) \<and>
   (counted opts ids g \<and> player_result opts ids g \<noteq> Some ''win'' \<and>
    player_result opts ids g \<noteq> Some ''loss'' \<longrightarrow>
      games_count (loop_body opts now ids st g) = games_count st + 1 \<and>
      duration_total (loop_body opts now ids st g) = duration_total st + duration_of g \<and>
      wins_count (loop_body opts now ids st g) = wins_count st \<and>
      losses_count (loop_body opts now ids st g) = losses_count st)"
proof (intro conjI impI)
  assume r: "getPlayerWinRate n f now0 now player options_arg = Inr stats"
  then obtain opts' ids' gs oc st' where
    fa: "for_await opts' now ids' initial_vars gs oc = Inr st'" and st: "stats = final_stats st'"
    by (auto simp: getPlayerWinRate_def Let_def split: sum.splits)
  have "wins_count st' + losses_count st' \<le> games_count st'"
    by (rule for_await_wins_losses[OF fa]) (simp add: initial_vars_def)
  then show "wins_count stats + losses_count stats \<le> games_count stats"
    by (simp add: st final_stats_def)
next
  assume a: "counted opts ids g \<and> player_result opts ids g \<noteq> Some ''win'' \<and>
    player_result opts ids g \<noteq> Some ''loss''"
  show "games_count (loop_body opts now ids st g) = games_count st + 1"
    using a by (simp add: loop_body_cases Let_def)
  show "duration_total (loop_body opts now ids st g) = duration_total st + duration_of g"
    using a by (simp add: loop_body_cases Let_def)
  show "wins_count (loop_body opts now ids st g) = wins_count st"
    using a by (simp add: loop_body_cases Let_def)
  show "losses_count (loop_body opts now ids st g) = losses_count st"
    using a by (simp add: loop_body_cases Let_def)
qed

theorem wins_losses_le_games_witness:
  "getPlayerWinRate 6 (paged_source 2 sample_history) 0 6000 (Ids [JInt 1, JInt 2]) None =
     Inr \<lparr>games_count = 5, wins_count = 2, losses_count = 2,
          first_game_at = Some 1000, last_game_at = Some 605000,
          duration_total = 3000, win_rate = 50, pending_games = 0,
          pending_game_started_at = None\<rparr> \<and>
   (2::nat) + 2 \<le> 5 \<and>
   counted default_options [JInt 1, JInt 2] (duel 3000 (Some 400) 2 None 8 None) \<and>
   player_result default_options [JInt 1, JInt 2] (duel 3000 (Some 400) 2 None 8 None) = None \<and>
   games_count (loop_body default_options 6000 [JInt 1, JInt 2] initial_vars
                  (duel 3000 (Some 400) 2 None 8 None)) = 1 \<and>
   duration_total (loop_body default_options 6000 [JInt 1, JInt 2] initial_vars
                  (duel 3000 (Some 400) 2 None 8 None)) = 400 \<and>
   wins_count (loop_body default_options 6000 [JInt 1, JInt 2] initial_vars
                  (duel 3000 (Some 400) 2 None 8 None)) = 0 \<and>
   losses_count (loop_body default_options 6000 [JInt 1, JInt 2] initial_vars
                  (duel 3000 (Some 400) 2 None 8 None)) = 0"
proof -
  have run: "getPlayerWinRate 6 (paged_source 2 sample_history) 0 6000 (Ids [JInt 1, JInt 2]) None =
     Inr \<lparr>games_count = 5, wins_count = 2, losses_count = 2,
          first_game_at = Some 1000, last_game_at = Some 605000,
          duration_total = 3000, win_rate = 50, pending_games = 0,
          pending_game_started_at = None\<rparr>"
    by (simp add: getPlayerWinRate_def gamesEnumerator_def enumPlayerGames_def fetchPlayerGames_def
          games_request_def eval_nat_numeral paged_source_def sample_history_def
          default_options_def initial_vars_def loop_break_def loop_body_def duel_def
          teamPlayer_def teamOpponent_def final_stats_def needs_new_page_def duration_of_def Let_def
          Math_round_def floor_eq_iff)
  have cnt: "counted default_options [JInt 1, JInt 2] (duel 3000 (Some 400) 2 None 8 None)"
    by (simp add: counted_def reaches_duration_test_def playerState_of_def opponentState_of_def
          default_options_def duel_def teamPlayer_def teamOpponent_def)
  have res: "player_result default_options [JInt 1, JInt 2] (duel 3000 (Some 400) 2 None 8 None) = None"
    by (simp add: player_result_def playerState_of_def
          default_options_def duel_def teamPlayer_def teamOpponent_def)
  have d: "duration_of (duel 3000 (Some 400) 2 None 8 None) = 400"
    by (simp add: duration_of_def duel_def)
  from wins_losses_le_games
         [where n = 6 and f = "paged_source 2 sample_history" and ?now0.0 = 0 and now = 6000
            and player = "Ids [JInt 1, JInt 2]" and options_arg = None
            and opts = default_options and ids = "[JInt 1, JInt 2]"
            and g = "duel 3000 (Some 400) 2 None 8 None"
            and st = initial_vars]
       run cnt res d
  show ?thesis by (simp add: initial_vars_def)
qed

lemma foldl_games_count:
  "games_count (foldl (loop_body opts now ids) st cs) =
     games_count st + length (filter (counted opts ids) cs)"
  by (induction cs arbitrary: st) (simp_all add: loop_body_cases Let_def)

lemma foldl_wins_count:
  "wins_count (foldl (loop_body opts now ids) st cs) =
     wins_count st +
     length (filter (\<lambda>g. counted opts ids g \<and> player_result opts ids g = Some ''win'') cs)"
  by (induction cs arbitrary: st) (simp_all add: loop_body_cases Let_def)

lemma foldl_losses_count:
  "losses_count (foldl (loop_body opts now ids) st cs) =
     losses_count st +
     length (filter (\<lambda>g. counted opts ids g \<and> player_result opts ids g = Some ''loss'') cs)"
  by (induction cs arbitrary: st) (simp_all add: loop_body_cases Let_def)

lemma foldl_duration_total:
  "duration_total (foldl (loop_body opts now ids) st cs) =
     duration_total st + sum_list (map duration_of (filter (counted opts ids) cs))"
  by (induction cs arbitrary: st) (simp_all add: loop_body_cases Let_def)

lemma counted_not_pending: "counted opts ids g \<Longrightarrow> \<not> pending opts ids now g"
  by (simp add: counted_def pending_def)

lemma foldl_pendingGames:
  "pendingGames (foldl (loop_body opts now ids) st cs) =
     pendingGames st + length (filter (pending opts ids now) cs)"
  by (induction cs arbitrary: st) (simp_all add: loop_body_cases Let_def counted_not_pending)

lemma foldl_pendingGame:
  "pendingGame (foldl (loop_body opts now ids) st cs) =
     (case pendingGame st of
        Some pg \<Rightarrow> Some pg
      | None \<Rightarrow> (case filter (pending opts ids now) cs of [] \<Rightarrow> None | g # _ \<Rightarrow> Some g))"
  by (induction cs arbitrary: st)
     (auto simp add: loop_body_cases Let_def counted_not_pending split: option.splits)

lemma foldl_first_game_at:
  "first_game_at (foldl (loop_body opts now ids) st cs) =
     (case filter (counted opts ids) cs of [] \<Rightarrow> first_game_at st | _ \<Rightarrow> Some (started_at (last (filter (counted opts ids) cs))))"
  by (induction cs arbitrary: st)
     (auto simp add: loop_body_cases Let_def split: list.splits)

section \<open>Where the loop stops\<close>

lemma session_no_break:
  assumes "\<not> truthy_num (timespan opts)" and "idletime opts = Some idle"
    and "lg - started_at g \<le> idle * 1000"
  shows "\<not> loop_break opts now lg g"
  using assms by (simp add: loop_break_def)

lemma session_break:
  assumes "\<not> truthy_num (timespan opts)" and "idletime opts = Some idle"
    and "lg \<noteq> 0" and "lg - started_at g > idle * 1000"
  shows "loop_break opts now lg g"
  using assms by (simp add: loop_break_def)

lemma session_first_no_break:
  assumes "\<not> truthy_num (timespan opts)"
  shows "\<not> loop_break opts now 0 g"
  using assms by (simp add: loop_break_def)


lemma consumed_session:
  assumes "\<not> truthy_num (timespan opts)" and "idletime opts = Some idle"
    and "pre \<noteq> []"
    and "\<forall>k. Suc k < length pre \<longrightarrow>
           started_at (pre ! k) - started_at (pre ! Suc k) \<le> idle * 1000"
    and "started_at (last pre) \<noteq> 0"
    and "started_at (last pre) - started_at g > idle * 1000"
  shows "consumed opts now 0 (pre @ g # rest) = pre"
proof (rule consumed_prefix_break)
  show "\<forall>k<length pre. \<not> loop_break opts now
          (if k = 0 then 0 else started_at (pre ! (k - 1))) (pre ! k)"
  proof (intro allI impI)
    fix k assume k: "k < length pre"
    show "\<not> loop_break opts now (if k = 0 then 0 else started_at (pre ! (k - 1))) (pre ! k)"
    proof (cases k)
      case 0
      then show ?thesis using session_first_no_break[OF assms(1)] by simp
    next
      case (Suc j)
      with k assms(4) have "started_at (pre ! j) - started_at (pre ! Suc j) \<le> idle * 1000"
        by simp
      from session_no_break[OF assms(1,2) this] Suc show ?thesis by simp
    qed
  qed
  show "loop_break opts now (if pre = [] then 0 else started_at (last pre)) g"
    using session_break[OF assms(1,2,5,6)] assms(3) by simp
qed


text \<open>
  Claim C3. With no timespan, the loop stops at the first game that started more than
  \<open>idletime\<close> seconds before the game seen just before it (whose timestamp is not the
  number 0, which the code reads as "no game seen yet"): the result is that of the loop
  body run over the games before it, and none after. The body sets \<open>lastgame\<close> to the
  start of every game it sees, counted or skipped. For games at \<open>T\<close>, an hour earlier and
  six hours earlier, both of the first two counted, and an idle time of four hours,
  \<open>games_count\<close> is 2.
\<close>

theorem session_boundary:
  assumes "\<not> truthy_num (timespan opts)" and "idletime opts = Some idle"
  shows "(map snd (yielded (fst (gamesEnumerator n f now0 player opts))) = pre @ g # rest \<and>
          pre \<noteq> [] \<and>
          (\<forall>k. Suc k < length pre \<longrightarrow>
                 started_at (pre ! k) - started_at (pre ! Suc k) \<le> idle * 1000) \<and>
          started_at (last pre) \<noteq> 0 \<and>
          started_at (last pre) - started_at g > idle * 1000 \<longrightarrow>
            getPlayerWinRate n f now0 now player (Some opts) =
              Inr (final_stats (foldl (loop_body opts now (as_array player)) initial_vars pre))) \<and>
         (\<forall>st h. lastgame (loop_body opts now (as_array player) st h) = started_at h) \<and>
         (map snd (yielded (fst (gamesEnumerator n f now0 player opts))) = g1 # g2 # g3 # rest' \<and>
          started_at g1 = T \<and> started_at g2 = T - 3600 * 1000 \<and>
          started_at g3 = T - 6 * 3600 * 1000 \<and> idle = 4 * 3600 \<and> started_at g2 \<noteq> 0 \<and>
          counted opts (as_array player) g1 \<and> counted opts (as_array player) g2 \<longrightarrow>
            (\<exists>stats. getPlayerWinRate n f now0 now player (Some opts) = Inr stats \<and>
                      games_count stats = 2))"
proof (intro conjI impI allI)
  assume a: "map snd (yielded (fst (gamesEnumerator n f now0 player opts))) = pre @ g # rest \<and>
          pre \<noteq> [] \<and>
          (\<forall>k. Suc k < length pre \<longrightarrow>
                 started_at (pre ! k) - started_at (pre ! Suc k) \<le> idle * 1000) \<and>
          started_at (last pre) \<noteq> 0 \<and>
          started_at (last pre) - started_at g > idle * 1000"
  then have c: "consumed opts now 0 (pre @ g # rest) = pre"
    using consumed_session[OF assms] by blast
  show "getPlayerWinRate n f now0 now player (Some opts) =
              Inr (final_stats (foldl (loop_body opts now (as_array player)) initial_vars pre))"
    by (rule getPlayerWinRate_break) (use a c in simp_all)
next
  fix st h
  show "lastgame (loop_body opts now (as_array player) st h) = started_at h"
    by (rule lastgame_loop_body)
next
  assume a: "map snd (yielded (fst (gamesEnumerator n f now0 player opts))) = g1 # g2 # g3 # rest' \<and>
          started_at g1 = T \<and> started_at g2 = T - 3600 * 1000 \<and>
          started_at g3 = T - 6 * 3600 * 1000 \<and> idle = 4 * 3600 \<and> started_at g2 \<noteq> 0 \<and>
          counted opts (as_array player) g1 \<and> counted opts (as_array player) g2"
  have c: "consumed opts now 0 ([g1, g2] @ g3 # rest') = [g1, g2]"
  proof (rule consumed_session[OF assms])
    show "\<forall>k. Suc k < length [g1, g2] \<longrightarrow>
           started_at ([g1, g2] ! k) - started_at ([g1, g2] ! Suc k) \<le> idle * 1000"
      using a by (auto simp: less_Suc_eq)
  qed (use a in simp_all)
  have r: "getPlayerWinRate n f now0 now player (Some opts) =
              Inr (final_stats (foldl (loop_body opts now (as_array player)) initial_vars [g1, g2]))"
    by (rule getPlayerWinRate_break) (use a c in simp_all)
  have "games_count (final_stats (foldl (loop_body opts now (as_array player)) initial_vars [g1, g2])) = 2"
    using a by (simp add: final_stats_def loop_body_cases Let_def initial_vars_def)
  with r show "\<exists>stats. getPlayerWinRate n f now0 now player (Some opts) = Inr stats \<and>
                      games_count stats = 2" by simp
qed

theorem session_boundary_witness:
  "map snd (yielded (fst (gamesEnumerator 4 (paged_source 50 (\<lambda>p. session_history))
       1700003600000 (Id (JInt 1)) default_options))) = session_history \<and>
   (\<exists>stats. getPlayerWinRate 4 (paged_source 50 (\<lambda>p. session_history)) 1700003600000
               1700003600000 (Id (JInt 1)) (Some default_options) = Inr stats \<and>
             games_count stats = 2)"
proof -
  have e: "map snd (yielded (fst (gamesEnumerator 4 (paged_source 50 (\<lambda>p. session_history))
       1700003600000 (Id (JInt 1)) default_options))) = session_history"
    by (simp add: gamesEnumerator_def enumPlayerGames_def fetchPlayerGames_def
          games_request_def eval_nat_numeral paged_source_def session_history_def
          default_options_def needs_new_page_def duel_def)
  have o: "\<not> truthy_num (timespan default_options)" "idletime default_options = Some (4 * 3600)"
    by (simp_all add: default_options_def)
  have c: "counted default_options (as_array (Id (JInt 1))) (session_history ! 0)"
          "counted default_options (as_array (Id (JInt 1))) (session_history ! 1)"
    by (simp_all add: counted_def reaches_duration_test_def playerState_of_def
          opponentState_of_def default_options_def duel_def teamPlayer_def teamOpponent_def
          session_history_def)
  have t: "started_at (session_history ! 0) = 1700000000000"
          "started_at (session_history ! 1) = 1700000000000 - 3600 * 1000"
          "started_at (session_history ! 2) = 1700000000000 - 6 * 3600 * 1000"
    by (simp_all add: session_history_def duel_def)
  have l: "session_history = session_history ! 0 # session_history ! 1 # session_history ! 2 # []"
    by (simp add: session_history_def)
  from session_boundary[OF o, where n = 4 and f = "paged_source 50 (\<lambda>p. session_history)"
            and ?now0.0 = 1700003600000 and now = 1700003600000 and player = "Id (JInt 1)"
            and ?g1.0 = "session_history ! 0" and ?g2.0 = "session_history ! 1"
            and ?g3.0 = "session_history ! 2" and rest' = "[]" and T = 1700000000000]
       e c t l
  show ?thesis by simp
qed



section \<open>Games in progress\<close>

lemma pending_ignores_filters:
  "pending (opts\<lparr>civ := c, map_filter := m\<rparr>) ids now g = pending opts ids now g"
  by (simp add: pending_def reaches_duration_test_def playerState_of_def opponentState_of_def)

text \<open>
  Claim C6. Of the games the loop takes before it stops, those that reach the test of
  their duration and have none are counted in \<open>pending_games\<close> exactly when they started
  less than three hours before \<open>now\<close>, and \<open>pending_game_started_at\<close> is the start of
  the first of them in the order of the sequence. The other counters are those of the
  counted games, none of which is without a duration; and whether a game is pending does
  not depend on the civilization and map filters.
\<close>

theorem pending_games_tracking:
  assumes "getPlayerWinRate n f now0 now player (Some opts) = Inr stats"
    and "cs = consumed opts now 0 (map snd (yielded (fst (gamesEnumerator n f now0 player opts))))"
    and "ids = as_array player"
  shows "pending_games stats = length (filter (pending opts ids now) cs) \<and>
         pending_game_started_at stats =
           (case filter (pending opts ids now) cs of [] \<Rightarrow> None | g # _ \<Rightarrow> Some (started_at g)) \<and>
         games_count stats = length (filter (counted opts ids) cs) \<and>
         wins_count stats =
           length (filter (\<lambda>g. counted opts ids g \<and> player_result opts ids g = Some ''win'') cs) \<and>
         losses_count stats =
           length (filter (\<lambda>g. counted opts ids g \<and> player_result opts ids g = Some ''loss'') cs) \<and>
         duration_total stats = sum_list (map duration_of (filter (counted opts ids) cs)) \<and>
         (\<forall>g. \<not> truthy_num (duration g) \<longrightarrow> \<not> counted opts ids g) \<and>
         (\<forall>g. pending opts ids now g =
                (reaches_duration_test opts ids g \<and> \<not> truthy_num (duration g) \<and>
                 started_at g > now - 3 * 3600 * 1000)) \<and>
         (\<forall>g c m. pending (opts\<lparr>civ := c, map_filter := m\<rparr>) ids now g = pending opts ids now g)"
proof -
  have st: "stats = final_stats (foldl (loop_body opts now ids) initial_vars cs)"
    using getPlayerWinRate_consumed[OF assms(1)] assms(2,3) by simp
  have 1: "pending_games stats = length (filter (pending opts ids now) cs)"
    by (simp add: st final_stats_def foldl_pendingGames initial_vars_def)
  have 2: "pending_game_started_at stats =
           (case filter (pending opts ids now) cs of [] \<Rightarrow> None | g # _ \<Rightarrow> Some (started_at g))"
    by (simp add: st final_stats_def foldl_pendingGame initial_vars_def split: list.splits)
  have 3: "games_count stats = length (filter (counted opts ids) cs)"
    by (simp add: st final_stats_def foldl_games_count initial_vars_def)
  have 4: "wins_count stats =
           length (filter (\<lambda>g. counted opts ids g \<and> player_result opts ids g = Some ''win'') cs)"
    by (simp add: st final_stats_def foldl_wins_count initial_vars_def)
  have 5: "losses_count stats =
           length (filter (\<lambda>g. counted opts ids g \<and> player_result opts ids g = Some ''loss'') cs)"
    by (simp add: st final_stats_def foldl_losses_count initial_vars_def)
  have 6: "duration_total stats = sum_list (map duration_of (filter (counted opts ids) cs))"
    by (simp add: st final_stats_def foldl_duration_total initial_vars_def)
  have 7: "\<forall>g. \<not> truthy_num (duration g) \<longrightarrow> \<not> counted opts ids g"
    by (simp add: counted_def)
  have 8: "\<forall>g. pending opts ids now g =
                (reaches_duration_test opts ids g \<and> \<not> truthy_num (duration g) \<and>
                 started_at g > now - 3 * 3600 * 1000)"
    by (simp add: pending_def)
  have 9: "\<forall>g c m. pending (opts\<lparr>civ := c, map_filter := m\<rparr>) ids now g = pending opts ids now g"
    by (simp add: pending_ignores_filters)
  show ?thesis using 1 2 3 4 5 6 7 8 9 by blast
qed

theorem pending_games_tracking_witness:
  "getPlayerWinRate 4 (paged_source 50 (\<lambda>p. pending_history)) 1700003600000 1700003600000
     (Id (JInt 1)) (Some default_options) =
     Inr \<lparr>games_count = 1, wins_count = 1, losses_count = 0,
          first_game_at = Some 1699998200000, last_game_at = Some 1699998800000,
          duration_total = 600, win_rate = 100, pending_games = 1,
          pending_game_started_at = Some 1700000000000\<rparr> \<and>
   consumed default_options 1700003600000 0
     (map snd (yielded (fst (gamesEnumerator 4 (paged_source 50 (\<lambda>p. pending_history))
        1700003600000 (Id (JInt 1)) default_options)))) = pending_history \<and>
   filter (pending default_options [JInt 1] 1700003600000) pending_history =
     [duel 1700000000000 None 1 None 7 None] \<and>
   filter (counted default_options [JInt 1]) pending_history =
     [duel 1699998200000 (Some 600) 1 (Some ''win'') 8 (Some ''loss'')]"
proof -
  have run: "getPlayerWinRate 4 (paged_source 50 (\<lambda>p. pending_history)) 1700003600000 1700003600000
     (Id (JInt 1)) (Some default_options) =
     Inr \<lparr>games_count = 1, wins_count = 1, losses_count = 0,
          first_game_at = Some 1699998200000, last_game_at = Some 1699998800000,
          duration_total = 600, win_rate = 100, pending_games = 1,
          pending_game_started_at = Some 1700000000000\<rparr>"
    by (simp add: getPlayerWinRate_def gamesEnumerator_def enumPlayerGames_def fetchPlayerGames_def
          games_request_def eval_nat_numeral paged_source_def pending_history_def
          default_options_def initial_vars_def loop_break_def loop_body_def duel_def
          teamPlayer_def teamOpponent_def final_stats_def needs_new_page_def duration_of_def Let_def)
  have cs: "consumed default_options 1700003600000 0
     (map snd (yielded (fst (gamesEnumerator 4 (paged_source 50 (\<lambda>p. pending_history))
        1700003600000 (Id (JInt 1)) default_options)))) = pending_history"
    by (simp add: gamesEnumerator_def enumPlayerGames_def fetchPlayerGames_def
          games_request_def eval_nat_numeral paged_source_def pending_history_def
          default_options_def needs_new_page_def duel_def loop_break_def)
  have p: "filter (pending default_options [JInt 1] 1700003600000) pending_history =
     [duel 1700000000000 None 1 None 7 None]"
    by (simp add: pending_def reaches_duration_test_def playerState_of_def
          opponentState_of_def default_options_def duel_def teamPlayer_def teamOpponent_def
          pending_history_def)
  have c: "filter (counted default_options [JInt 1]) pending_history =
     [duel 1699998200000 (Some 600) 1 (Some ''win'') 8 (Some ''loss'')]"
    by (simp add: counted_def reaches_duration_test_def playerState_of_def
          opponentState_of_def default_options_def duel_def teamPlayer_def teamOpponent_def
          pending_history_def)
  from pending_games_tracking[OF run cs[symmetric], of "[JInt 1]"] run cs p c show ?thesis by simp
qed

section \<open>Fetching on demand\<close>

lemma on_demand_append:
  "on_demand f mon (xs @ ys) =
     (on_demand f mon xs \<and> on_demand f (foldl (observe f) mon xs) ys)"
  by (induction xs arbitrary: mon) simp_all

lemma fetchPlayerGames_seen:
  "seen_as (map_option (\<lambda>json. (json, 0)) (f (games_request pid opp since pg)))
           (fetchPlayerGames f pid opp since pg)"
  by (simp add: seen_as_def fetchPlayerGames_def payload_def split: option.splits)

lemma fetch_new_pages_on_demand:
  assumes "\<forall>j < length ss. seen_as (mon (i + j)) (ss ! j)"
  shows "on_demand f mon (fst (fetch_new_pages f opp since i ss)) \<and>
         (\<forall>k. k < i \<or> i + length ss \<le> k \<longrightarrow>
              foldl (observe f) mon (fst (fetch_new_pages f opp since i ss)) k = mon k) \<and>
         (\<forall>ss'. snd (fetch_new_pages f opp since i ss) = Some ss' \<longrightarrow>
              length ss' = length ss \<and>
              (\<forall>j < length ss'.
                  seen_as (foldl (observe f) mon (fst (fetch_new_pages f opp since i ss)) (i + j))
                          (ss' ! j)))"
  using assms
proof (induction ss arbitrary: i mon)
  case Nil
  show ?case by simp
next
  case (Cons a ss)
  show ?case
  proof (cases a)
    case None
    then show ?thesis by simp
  next
    case (Some s)
    from Cons.prems[rule_format, of 0] Some
    have m: "mon i = Some (payload s, index s)" and le: "index s \<le> length (games s)"
      by (simp_all add: seen_as_def)
    have tl: "\<forall>j < length ss. seen_as (mon (Suc i + j)) (ss ! j)"
    proof (intro allI impI)
      fix j assume "j < length ss"
      with Cons.prems[rule_format, of "Suc j"] show "seen_as (mon (Suc i + j)) (ss ! j)" by simp
    qed
    show ?thesis
    proof (cases "needs_new_page s")
      case True
      define rq where "rq = games_request (profile_id s) opp since (page s + 1)"
      define mon' where "mon' = observe f mon (Fetched i rq)"
      define s' where "s' = fetchPlayerGames f (profile_id s) opp since (page s + 1)"
      define evs where "evs = fst (fetch_new_pages f opp since (Suc i) ss)"
      define r where "r = snd (fetch_new_pages f opp since (Suc i) ss)"
      have al: "allowed mon (Fetched i rq)"
        using True m le by (simp add: needs_new_page_def payload_def games_request_def rq_def)
      have mon'_i: "seen_as (mon' i) s'"
        using fetchPlayerGames_seen[of f "profile_id s" opp since "page s + 1"]
        by (simp add: mon'_def rq_def s'_def)
      have mon'_other: "mon' k = mon k" if "k \<noteq> i" for k
        using that by (simp add: mon'_def)
      have tl': "\<forall>j < length ss. seen_as (mon' (Suc i + j)) (ss ! j)"
        using tl by (simp add: mon'_other)
      from Cons.IH[OF tl']
      have ih1: "on_demand f mon' evs"
        and ih2: "\<And>k. k < Suc i \<or> Suc i + length ss \<le> k \<Longrightarrow> foldl (observe f) mon' evs k = mon' k"
        and ih3: "\<And>ss'. r = Some ss' \<Longrightarrow> length ss' = length ss \<and>
              (\<forall>j < length ss'. seen_as (foldl (observe f) mon' evs (Suc i + j)) (ss' ! j))"
        unfolding evs_def r_def by blast+
      have eq: "fetch_new_pages f opp since i (a # ss) = (Fetched i rq # evs, map_option (Cons s') r)"
        by (simp add: Some True rq_def evs_def r_def s'_def)
      have 1: "on_demand f mon (Fetched i rq # evs)"
        using al ih1 unfolding mon'_def by simp
      have f: "foldl (observe f) mon (Fetched i rq # evs) = foldl (observe f) mon' evs"
        unfolding mon'_def by simp
      have 2: "foldl (observe f) mon (Fetched i rq # evs) k = mon k"
        if "k < i \<or> i + length (a # ss) \<le> k" for k
        unfolding f using ih2[of k] that mon'_other[of k] by auto
      have 3: "length ss' = length (a # ss) \<and>
              (\<forall>j < length ss'. seen_as (foldl (observe f) mon (Fetched i rq # evs) (i + j)) (ss' ! j))"
        if "map_option (Cons s') r = Some ss'" for ss'
      proof -
        from that obtain t where t: "r = Some t" "ss' = s' # t" by auto
        from ih3[OF t(1)] have l: "length t = length ss"
          and p: "\<And>j. j < length t \<Longrightarrow> seen_as (foldl (observe f) mon' evs (Suc i + j)) (t ! j)"
          by auto
        have h: "seen_as (foldl (observe f) mon' evs i) s'"
          using ih2[of i] mon'_i by simp
        show ?thesis
        proof (intro conjI allI impI)
          show "length ss' = length (a # ss)" using t l by simp
        next
          fix j assume "j < length ss'"
          then show "seen_as (foldl (observe f) mon (Fetched i rq # evs) (i + j)) (ss' ! j)"
            unfolding f using h p t by (cases j) auto
        qed
      qed
      show ?thesis unfolding eq fst_conv snd_conv using 1 2 3 by blast
    next
      case False
      define evs where "evs = fst (fetch_new_pages f opp since (Suc i) ss)"
      define r where "r = snd (fetch_new_pages f opp since (Suc i) ss)"
      from Cons.IH[OF tl]
      have ih1: "on_demand f mon evs"
        and ih2: "\<And>k. k < Suc i \<or> Suc i + length ss \<le> k \<Longrightarrow> foldl (observe f) mon evs k = mon k"
        and ih3: "\<And>ss'. r = Some ss' \<Longrightarrow> length ss' = length ss \<and>
              (\<forall>j < length ss'. seen_as (foldl (observe f) mon evs (Suc i + j)) (ss' ! j))"
        unfolding evs_def r_def by blast+
      have eq: "fetch_new_pages f opp since i (a # ss) = (evs, map_option (Cons (Some s)) r)"
        by (simp add: Some False evs_def r_def)
      have 2: "foldl (observe f) mon evs k = mon k"
        if "k < i \<or> i + length (a # ss) \<le> k" for k
        using ih2[of k] that by auto
      have 3: "length ss' = length (a # ss) \<and>
              (\<forall>j < length ss'. seen_as (foldl (observe f) mon evs (i + j)) (ss' ! j))"
        if "map_option (Cons (Some s)) r = Some ss'" for ss'
      proof -
        from that obtain t where t: "r = Some t" "ss' = Some s # t" by auto
        from ih3[OF t(1)] have l: "length t = length ss"
          and p: "\<And>j. j < length t \<Longrightarrow> seen_as (foldl (observe f) mon evs (Suc i + j)) (t ! j)"
          by auto
        have h: "seen_as (foldl (observe f) mon evs i) (Some s)"
          using ih2[of i] m le by (simp add: seen_as_def)
        show ?thesis
        proof (intro conjI allI impI)
          show "length ss' = length (a # ss)" using t l by simp
        next
          fix j assume "j < length ss'"
          then show "seen_as (foldl (observe f) mon evs (i + j)) (ss' ! j)"
            using h p t by (cases j) auto
        qed
      qed
      show ?thesis unfolding eq fst_conv snd_conv using ih1 2 3 by blast
    qed
  qed
qed


lemma enum_loop_on_demand:
  assumes "\<forall>j < length ss. seen_as (mon j) (ss ! j)"
  shows "on_demand f mon (fst (enum_loop n f opp since ss))"
  using assms
proof (induction n arbitrary: ss mon)
  case 0
  show ?case by simp
next
  case (Suc n)
  define evs where "evs = fst (fetch_new_pages f opp since 0 ss)"
  define r where "r = snd (fetch_new_pages f opp since 0 ss)"
  define mon1 where "mon1 = foldl (observe f) mon evs"
  have fp: "fetch_new_pages f opp since 0 ss = (evs, r)"
    by (simp add: evs_def r_def)
  from fetch_new_pages_on_demand[of ss mon 0 f opp since] Suc.prems
  have od: "on_demand f mon evs"
    and seen: "\<And>ss'. r = Some ss' \<Longrightarrow> length ss' = length ss \<and>
                  (\<forall>j < length ss'. seen_as (mon1 j) (ss' ! j))"
    unfolding evs_def r_def mon1_def by auto
  show ?case
  proof (cases r)
    case None
    then show ?thesis using od fp by simp
  next
    case (Some ss')
    note s = seen[OF Some]
    show ?thesis
    proof (cases "reduce_firstState 0 None ss'")
      case None
      then show ?thesis using od fp Some by simp
    next
      case outer: (Some first)
      show ?thesis
      proof (cases first)
        case None
        then show ?thesis using od fp Some outer by simp
      next
        case inner: (Some sel)
        obtain i st where sel: "sel = (i, st)" by (cases sel)
        have red: "reduce_firstState 0 None ss' = Some (Some (i, st))"
          using outer inner sel by simp
        from reduce_firstState_acc[OF red]
        have i: "i < length ss'" and si: "ss' ! i = Some st" and live: "index st < length (games st)"
          by simp_all
        from s i si have m1: "mon1 i = Some (payload st, index st)"
          by (auto simp: seen_as_def)
        define g where "g = games st ! index st"
        define mon2 where "mon2 = observe f mon1 (Yielded i g)"
        define ss2 where "ss2 = ss'[i := Some (st\<lparr>index := index st + 1\<rparr>)]"
        have al: "allowed mon1 (Yielded i g)"
          using m1 live by (simp add: g_def payload_def)
        have seen2: "\<forall>j < length ss2. seen_as (mon2 j) (ss2 ! j)"
        proof (intro allI impI)
          fix j assume j: "j < length ss2"
          show "seen_as (mon2 j) (ss2 ! j)"
          proof (cases "j = i")
            case True
            then show ?thesis
              using m1 live i by (simp add: mon2_def ss2_def seen_as_def payload_def)
          next
            case False
            then show ?thesis
              using s j by (simp add: mon2_def ss2_def)
          qed
        qed
        have ih: "on_demand f mon2 (fst (enum_loop n f opp since ss2))"
          by (rule Suc.IH[OF seen2])
        have ev: "fst (enum_loop (Suc n) f opp since ss) =
                    evs @ Yielded i g # fst (enum_loop n f opp since ss2)"
          using fp Some red by (simp add: g_def ss2_def split: prod.splits)
        show ?thesis
          unfolding ev on_demand_append
          using od al ih by (simp add: mon1_def mon2_def del: observe.simps allowed.simps)
      qed
    qed
  qed
qed

lemma first_pages_on_demand:
  assumes "\<forall>k \<ge> i. mon k = None"
  shows "on_demand f mon
           (map (\<lambda>(j, p). Fetched j (games_request p opp since 1)) (enumerate i ids)) \<and>
         (\<forall>j < length ids.
            foldl (observe f) mon
              (map (\<lambda>(j, p). Fetched j (games_request p opp since 1)) (enumerate i ids)) (i + j) =
            map_option (\<lambda>json. (json, 0)) (f (games_request (ids ! j) opp since 1))) \<and>
         (\<forall>k \<ge> i + length ids.
            foldl (observe f) mon
              (map (\<lambda>(j, p). Fetched j (games_request p opp since 1)) (enumerate i ids)) k = None)"
  using assms
proof (induction ids arbitrary: i mon)
  case Nil
  then show ?case by simp
next
  case (Cons p ids)
  define mon' where "mon' = observe f mon (Fetched i (games_request p opp since 1))"
  define evs where "evs = map (\<lambda>(j, p). Fetched j (games_request p opp since 1)) (enumerate (Suc i) ids)"
  have mon'_i: "mon' i = map_option (\<lambda>json. (json, 0)) (f (games_request p opp since 1))"
    by (simp add: mon'_def)
  have none: "\<forall>k \<ge> Suc i. mon' k = None"
    using Cons.prems by (simp add: mon'_def)
  from Cons.IH[OF none]
  have ih1: "on_demand f mon' evs"
    and ih2: "\<And>j. j < length ids \<Longrightarrow> foldl (observe f) mon' evs (Suc i + j) =
            map_option (\<lambda>json. (json, 0)) (f (games_request (ids ! j) opp since 1))"
    and ih3: "\<And>k. k \<ge> Suc i + length ids \<Longrightarrow> foldl (observe f) mon' evs k = None"
    unfolding evs_def by blast+
  have keep: "foldl (observe f) mon' evs k = mon' k" if "k < Suc i" for k
    using that unfolding evs_def
  proof (induction ids arbitrary: i mon' rule: rev_induct)
    case Nil
    show ?case by simp
  next
    case (snoc x xs)
    then show ?case by (simp add: enumerate_append_eq)
  qed
  have al: "allowed mon (Fetched i (games_request p opp since 1))"
    using Cons.prems by (simp add: games_request_def)
  have eq: "map (\<lambda>(j, p). Fetched j (games_request p opp since 1)) (enumerate i (p # ids)) =
              Fetched i (games_request p opp since 1) # evs"
    by (simp add: evs_def)
  have f: "foldl (observe f) mon (Fetched i (games_request p opp since 1) # evs) =
             foldl (observe f) mon' evs"
    by (simp add: mon'_def)
  show ?case
    unfolding eq f
  proof (intro conjI allI impI)
    show "on_demand f mon (Fetched i (games_request p opp since 1) # evs)"
      using al ih1 by (simp add: mon'_def del: allowed.simps observe.simps)
  next
    fix j assume "j < length (p # ids)"
    then show "foldl (observe f) mon' evs (i + j) =
            map_option (\<lambda>json. (json, 0)) (f (games_request ((p # ids) ! j) opp since 1))"
      using ih2 keep[of i] mon'_i by (cases j) auto
  next
    fix k assume "i + length (p # ids) \<le> k"
    then show "foldl (observe f) mon' evs k = None"
      using ih3[of k] by simp
  qed
qed

text \<open>
  Claim C7. In every run of \<open>enumPlayerGames\<close>, with any source and any arguments, the
  events pass the check: after the first page of a profile, a request is issued only
  for the page after the one loaded, only when every game of the loaded page has been
  yielded, and only when the offset plus the cursor is below the total.
\<close>

theorem fetching_on_demand:
  "on_demand f (\<lambda>i. None) (fst (enumPlayerGames n f profileIds opponentProfileId since))"
proof -
  define ids where "ids = as_array profileIds"
  define init where "init = map (\<lambda>(j, p). Fetched j (games_request p opponentProfileId since 1)) (enumerate 0 ids)"
  define states where "states = map (\<lambda>p. fetchPlayerGames f p opponentProfileId since 1) ids"
  define mon where "mon = foldl (observe f) (\<lambda>i. None) init"
  from first_pages_on_demand[of 0 "\<lambda>i. None" f opponentProfileId since ids]
  have 1: "on_demand f (\<lambda>i. None) init"
    and 2: "\<And>j. j < length ids \<Longrightarrow>
              mon j = map_option (\<lambda>json. (json, 0)) (f (games_request (ids ! j) opponentProfileId since 1))"
    unfolding init_def mon_def by auto
  have seen: "\<forall>j < length states. seen_as (mon j) (states ! j)"
    using 2 fetchPlayerGames_seen[of f _ opponentProfileId since 1]
    by (simp add: states_def)
  have 3: "on_demand f mon (fst (enum_loop n f opponentProfileId since states))"
    by (rule enum_loop_on_demand[OF seen])
  have "on_demand f (\<lambda>i. None) (init @ fst (enum_loop n f opponentProfileId since states))"
    unfolding on_demand_append using 1 3 by (simp add: mon_def)
  then show ?thesis
    by (simp add: enumPlayerGames_def Let_def case_prod_beta ids_def init_def states_def)
qed

theorem fetching_on_demand_witness:
  "on_demand (paged_source 2 sample_history) (\<lambda>i. None)
     (fst (enumPlayerGames 6 (paged_source 2 sample_history) (Ids [JInt 1, JInt 2]) JNull None)) \<and>
   fetched (fst (enumPlayerGames 6 (paged_source 2 sample_history) (Ids [JInt 1, JInt 2]) JNull None)) =
     [(0, games_request (JInt 1) JNull None 1), (1, games_request (JInt 2) JNull None 1),
      (0, games_request (JInt 1) JNull None 2)] \<and>
   \<not> on_demand (paged_source 2 sample_history) (\<lambda>i. None)
       [Fetched 0 (games_request (JInt 1) JNull None 1),
        Yielded 0 (sample_history 1 ! 0),
        Fetched 0 (games_request (JInt 1) JNull None 2)]"
proof -
  have f: "fetched (fst (enumPlayerGames 6 (paged_source 2 sample_history) (Ids [JInt 1, JInt 2]) JNull None)) =
     [(0, games_request (JInt 1) JNull None 1), (1, games_request (JInt 2) JNull None 1),
      (0, games_request (JInt 1) JNull None 2)]"
    by (simp add: enumPlayerGames_def fetchPlayerGames_def games_request_def eval_nat_numeral
          paged_source_def sample_history_def needs_new_page_def duel_def)
  have n: "\<not> on_demand (paged_source 2 sample_history) (\<lambda>i. None)
       [Fetched 0 (games_request (JInt 1) JNull None 1),
        Yielded 0 (sample_history 1 ! 0),
        Fetched 0 (games_request (JInt 1) JNull None 2)]"
    by (simp add: games_request_def paged_source_def sample_history_def)
  from fetching_on_demand[of "paged_source 2 sample_history" 6 "Ids [JInt 1, JInt 2]" JNull None] f n
  show ?thesis by simp
qed

section \<open>The merge of the histories\<close>

lemma fetchPlayerGames_paged:
  assumes "1 \<le> m"
  shows "fetchPlayerGames (paged_source P hist) (JInt p) opp since (int m) =
           Some (page_view P (hist p) (JInt p) opp m 0)"
  using assms by (simp add: fetchPlayerGames_def paged_source_def games_request_def page_view_def Let_def)

lemma page_view_fields [simp]:
  "index (page_view P L pid opp m k) = k"
  "games (page_view P L pid opp m k) = take P (drop ((m - 1) * P) L)"
  "offset (page_view P L pid opp m k) = int ((m - 1) * P)"
  "total_count (page_view P L pid opp m k) = int (length L)"
  "page (page_view P L pid opp m k) = int m"
  "profile_id (page_view P L pid opp m k) = pid"
  by (simp_all add: page_view_def)

lemma page_view_index_update:
  "(page_view P L pid opp m k)\<lparr>index := k'\<rparr> = page_view P L pid opp m k'"
  by (simp add: page_view_def)

lemma needs_new_page_view:
  "needs_new_page (page_view P L pid opp m k) =
     (length (take P (drop ((m - 1) * P) L)) \<le> k \<and> (m - 1) * P + k < length L)"
proof -
  have "(offset (page_view P L pid opp m k) + int (index (page_view P L pid opp m k))
           < total_count (page_view P L pid opp m k)) = ((m - 1) * P + k < length L)"
    by (simp only: page_view_fields of_nat_add[symmetric] of_nat_less_iff)
  then show ?thesis
    by (simp only: needs_new_page_def page_view_fields)
qed

lemma tracks_step:
  assumes P: "0 < P" and t: "tracks P hist opp (p, c) (Some s)"
  shows "tracks P hist opp (p, c)
           (if needs_new_page s then fetchPlayerGames (paged_source P hist) (profile_id s) opp since (page s + 1)
            else Some s) \<and>
         (\<forall>s'. (if needs_new_page s then fetchPlayerGames (paged_source P hist) (profile_id s) opp since (page s + 1)
            else Some s) = Some s' \<longrightarrow>
             (index s' < length (games s')) = (c < length (hist p)) \<and>
             (c < length (hist p) \<longrightarrow> games s' ! index s' = hist p ! c))"
proof -
  from t obtain m k where s: "s = page_view P (hist p) (JInt p) opp m k"
    and m: "1 \<le> m" and k: "k \<le> length (take P (drop ((m - 1) * P) (hist p)))"
    and c: "(m - 1) * P + k = c"
    by (auto simp: tracks_def)
  show ?thesis
  proof (cases "needs_new_page s")
    case True
    then have ge: "length (take P (drop ((m - 1) * P) (hist p))) \<le> k"
      and lt: "(m - 1) * P + k < length (hist p)"
      by (simp_all add: needs_new_page_view s)
    from ge k lt P have kP: "k = P" by (auto simp: min_def split: if_splits)
    have f: "fetchPlayerGames (paged_source P hist) (profile_id s) opp since (page s + 1) =
               Some (page_view P (hist p) (JInt p) opp (Suc m) 0)"
      using fetchPlayerGames_paged[of "Suc m" P hist p opp since] by (simp add: s add.commute)
    have c': "m * P = c" using c kP m by (cases m) simp_all
    have tr: "tracks P hist opp (p, c) (Some (page_view P (hist p) (JInt p) opp (Suc m) 0))"
      unfolding tracks_def using c' by (intro exI[of _ "Suc m"] exI[of _ 0]) simp
    have lt': "c < length (hist p)" using lt c by simp
    have live: "0 < length (take P (drop (m * P) (hist p)))"
      using lt' c' P by simp
    have cur: "take P (drop (m * P) (hist p)) ! 0 = hist p ! c"
      using lt' c' P by simp
    show ?thesis using True f tr lt' live cur by simp
  next
    case False
    have iff: "(k < length (take P (drop ((m - 1) * P) (hist p)))) = (c < length (hist p))"
      using False k c P by (auto simp: needs_new_page_view s min_def split: if_splits)
    have cur: "take P (drop ((m - 1) * P) (hist p)) ! k = hist p ! c"
      if "c < length (hist p)"
      using that iff c by (simp add: add.commute)
    show ?thesis using False t iff cur by (simp add: s)
  qed
qed

lemma tracks_Some: "tracks P hist opp pc so \<Longrightarrow> \<exists>s. so = Some s"
  by (auto simp: tracks_def)

lemma fetch_new_pages_ready:
  assumes "0 < P" and "list_all2 (tracks P hist opp) pcs ss"
  shows "\<exists>ss'. snd (fetch_new_pages (paged_source P hist) opp since i ss) = Some ss' \<and>
               list_all2 (ready P hist opp) pcs ss'"
  using assms(2)
proof (induction pcs ss arbitrary: i rule: list_all2_induct)
  case Nil
  show ?case by simp
next
  case (Cons pc pcs so ss)
  from tracks_Some[OF Cons.hyps(1)] obtain s where so: "so = Some s" by blast
  obtain p c where pc: "pc = (p, c)" by (cases pc)
  from Cons.IH[of "Suc i"] obtain ss' where
    ih: "snd (fetch_new_pages (paged_source P hist) opp since (Suc i) ss) = Some ss'"
        "list_all2 (ready P hist opp) pcs ss'" by blast
  define s' where "s' = (if needs_new_page s
      then fetchPlayerGames (paged_source P hist) (profile_id s) opp since (page s + 1)
      else Some s)"
  from tracks_step[OF assms(1), of hist opp p c s since] Cons.hyps(1)
  have r: "ready P hist opp pc s'"
    unfolding ready_def s'_def[symmetric] so pc
    by (auto simp: tracks_def split: option.splits)
  have "snd (fetch_new_pages (paged_source P hist) opp since i (so # ss)) = Some (s' # ss')"
    using ih(1) by (simp add: so s'_def)
  with r ih(2) show ?case by simp
qed

lemma reduce_firstState_total:
  assumes "list_all2 (ready P hist opp) pcs ss"
  shows "\<exists>r. reduce_firstState k prev ss = Some r \<and>
             (r = None) = (prev = None \<and> (\<forall>pc\<in>set pcs. \<not> snd pc < length (hist (fst pc))))"
  using assms
proof (induction pcs ss arbitrary: k prev rule: list_all2_induct)
  case Nil
  show ?case by simp
next
  case (Cons pc pcs so ss)
  from Cons.hyps(1) obtain s where so: "so = Some s"
    and live: "(index s < length (games s)) = (snd pc < length (hist (fst pc)))"
    by (auto simp: ready_def split: option.splits)
  show ?case
  proof (cases "index s < length (games s)")
    case False
    with Cons.IH[of "Suc k" prev] live show ?thesis by (simp add: so)
  next
    case True
    show ?thesis
    proof (cases prev)
      case None
      with Cons.IH[of "Suc k" "Some (k, s)"] True live show ?thesis by (auto simp: so)
    next
      case (Some jp)
      with Cons.IH[of "Suc k" "Some (k, s)"] Cons.IH[of "Suc k" prev] True live
      show ?thesis by (cases jp) (auto simp: so)
    qed
  qed
qed

lemma enum_round:
  assumes "0 < P" and "list_all2 (tracks P hist opp) pcs ss"
  shows "(\<exists>evs. yielded evs = [] \<and>
              (\<forall>pc\<in>set pcs. \<not> snd pc < length (hist (fst pc))) \<and>
              (\<forall>n. enum_loop (Suc n) (paged_source P hist) opp since ss = (evs, Exhausted))) \<or>
         (\<exists>evs ss' i s. yielded evs = [] \<and>
              list_all2 (ready P hist opp) pcs ss' \<and>
              reduce_firstState 0 None ss' = Some (Some (i, s)) \<and>
              (\<forall>n. enum_loop (Suc n) (paged_source P hist) opp since ss =
                     (evs @ Yielded i (games s ! index s) #
                        fst (enum_loop n (paged_source P hist) opp since
                               (ss'[i := Some (s\<lparr>index := index s + 1\<rparr>)])),
                      snd (enum_loop n (paged_source P hist) opp since
                               (ss'[i := Some (s\<lparr>index := index s + 1\<rparr>)])))))"
proof -
  define evs where "evs = fst (fetch_new_pages (paged_source P hist) opp since 0 ss)"
  from fetch_new_pages_ready[OF assms, of since 0] obtain ss' where
    sn: "snd (fetch_new_pages (paged_source P hist) opp since 0 ss) = Some ss'"
    and rd: "list_all2 (ready P hist opp) pcs ss'" by blast
  have fp: "fetch_new_pages (paged_source P hist) opp since 0 ss = (evs, Some ss')"
    using sn by (simp add: evs_def prod_eq_iff)
  have ye: "yielded evs = []"
    unfolding evs_def by (rule fetch_new_pages_yielded)
  from reduce_firstState_total[OF rd, of 0 None] obtain r where
    red: "reduce_firstState 0 None ss' = Some r"
    and rn: "(r = None) = (\<forall>pc\<in>set pcs. \<not> snd pc < length (hist (fst pc)))" by auto
  show ?thesis
  proof (cases r)
    case None
    have "\<forall>n. enum_loop (Suc n) (paged_source P hist) opp since ss = (evs, Exhausted)"
      using fp red None by simp
    with ye rn None show ?thesis by blast
  next
    case (Some sel)
    obtain i s where sel: "sel = (i, s)" by (cases sel)
    have "\<forall>n. enum_loop (Suc n) (paged_source P hist) opp since ss =
                     (evs @ Yielded i (games s ! index s) #
                        fst (enum_loop n (paged_source P hist) opp since
                               (ss'[i := Some (s\<lparr>index := index s + 1\<rparr>)])),
                      snd (enum_loop n (paged_source P hist) opp since
                               (ss'[i := Some (s\<lparr>index := index s + 1\<rparr>)])))"
      using fp red Some sel by (simp add: case_prod_beta)
    with ye rd red Some sel show ?thesis by blast
  qed
qed

lemma ready_advance:
  assumes "ready P hist opp (p, c) (Some s)" and "index s < length (games s)"
  shows "tracks P hist opp (p, Suc c) (Some (s\<lparr>index := index s + 1\<rparr>))"
proof -
  from assms(1) obtain m k where s: "s = page_view P (hist p) (JInt p) opp m k"
    and m: "1 \<le> m" and c: "(m - 1) * P + k = c"
    by (auto simp: ready_def tracks_def)
  from assms(2) have k: "Suc k \<le> length (take P (drop ((m - 1) * P) (hist p)))"
    by (simp add: s)
  show ?thesis
    unfolding tracks_def s page_view_index_update page_view_fields
    using m c k by (intro exI[of _ m] exI[of _ "Suc k"]) simp
qed

lemma newest_first_drop:
  assumes "newest_first L" and "c < length L" and "g \<in> set (drop c L)"
  shows "started_at g \<le> started_at (L ! c)"
proof -
  from assms(2) have d: "drop c L = L ! c # drop (Suc c) L"
    by (simp add: Cons_nth_drop_Suc)
  from assms(1) have "sorted_wrt (\<lambda>a b. started_at b \<le> started_at a) (drop c L)"
    unfolding newest_first_def by (rule sorted_wrt_drop)
  with d assms(3) show ?thesis by auto
qed

lemma yielded_from_Cons:
  "yielded_from j (evs @ Yielded i g # evs') =
     (if i = j then g # yielded_from j evs' else yielded_from j evs')"
  if "yielded evs = []"
  using that by (simp add: yielded_from_def yielded_append)

lemma sum_list_update_dec:
  fixes f :: "'a \<Rightarrow> nat"
  assumes "i < length xs" and "f x + 1 = f (xs ! i)"
  shows "sum_list (map f (xs[i := x])) + 1 = sum_list (map f xs)"
  using assms
proof (induction xs arbitrary: i)
  case Nil
  then show ?case by simp
next
  case (Cons a xs)
  then show ?case by (cases i) auto
qed

lemma enum_loop_merge:
  assumes P: "0 < P"
    and tr: "list_all2 (tracks P hist opp) pcs ss"
    and nf: "\<forall>pc\<in>set pcs. newest_first (hist (fst pc))"
    and N: "sum_list (map (\<lambda>pc. length (hist (fst pc)) - snd pc) pcs) = N"
  shows "snd (enum_loop (Suc N) (paged_source P hist) opp since ss) = Exhausted \<and>
         sorted_wrt (\<lambda>a b. started_at (snd b) \<le> started_at (snd a))
           (yielded (fst (enum_loop (Suc N) (paged_source P hist) opp since ss))) \<and>
         (\<forall>j<length pcs.
             yielded_from j (fst (enum_loop (Suc N) (paged_source P hist) opp since ss)) =
               drop (snd (pcs ! j)) (hist (fst (pcs ! j)))) \<and>
         (\<forall>y\<in>set (yielded (fst (enum_loop (Suc N) (paged_source P hist) opp since ss))).
             fst y < length pcs)"
  using tr nf N
proof (induction N arbitrary: pcs ss rule: less_induct)
  case (less N)
  note tr = less.prems(1) and nf = less.prems(2) and N = less.prems(3)
  from enum_round[OF P tr, of since]
  show ?case
  proof (elim disjE exE conjE)
    fix evs
    assume ye: "yielded evs = []"
      and ex: "\<forall>pc\<in>set pcs. \<not> snd pc < length (hist (fst pc))"
      and run: "\<forall>n. enum_loop (Suc n) (paged_source P hist) opp since ss = (evs, Exhausted)"
    have dr: "drop (snd (pcs ! j)) (hist (fst (pcs ! j))) = []" if "j < length pcs" for j
      using ex that by (simp add: not_less)
    show ?thesis
      using run ye dr by (simp add: yielded_from_def)
  next
    fix evs ss' i s
    assume ye: "yielded evs = []"
      and rd: "list_all2 (ready P hist opp) pcs ss'"
      and red: "reduce_firstState 0 None ss' = Some (Some (i, s))"
      and run: "\<forall>n. enum_loop (Suc n) (paged_source P hist) opp since ss =
                     (evs @ Yielded i (games s ! index s) #
                        fst (enum_loop n (paged_source P hist) opp since
                               (ss'[i := Some (s\<lparr>index := index s + 1\<rparr>)])),
                      snd (enum_loop n (paged_source P hist) opp since
                               (ss'[i := Some (s\<lparr>index := index s + 1\<rparr>)])))"
    define g where "g = games s ! index s"
    define ss2 where "ss2 = ss'[i := Some (s\<lparr>index := index s + 1\<rparr>)]"
    note acc = reduce_firstState_acc[OF red]
    from acc have i: "i < length ss'" and si: "ss' ! i = Some s"
      and live: "index s < length (games s)" by simp_all
    have top: "started_at (games s' ! index s') \<le> started_at g"
      if "j < length ss'" "ss' ! j = Some s'" "index s' < length (games s')" for j s'
      using acc that unfolding g_def by blast
    have len: "length pcs = length ss'" using rd by (rule list_all2_lengthD)
    obtain p c where pc: "pcs ! i = (p, c)" by (cases "pcs ! i")
    have rdi: "ready P hist opp (p, c) (Some s)"
      using list_all2_nthD[OF rd, of i] i len pc si by simp
    from rdi live have c: "c < length (hist p)" and gc: "g = hist p ! c"
      by (simp_all add: ready_def g_def)
    define pcs2 where "pcs2 = pcs[i := (p, Suc c)]"
    have tr': "list_all2 (tracks P hist opp) pcs ss'"
      using rd by (rule list_all2_mono) (simp add: ready_def)
    have tr2: "list_all2 (tracks P hist opp) pcs2 ss2"
      unfolding pcs2_def ss2_def
      by (rule list_all2_update_cong[OF tr' ready_advance[OF rdi live]])
    have pin: "pcs ! i \<in> set pcs" using i len by simp
    have nf2: "\<forall>pc\<in>set pcs2. newest_first (hist (fst pc))"
    proof
      fix x assume "x \<in> set pcs2"
      then have "x = (p, Suc c) \<or> x \<in> set pcs"
        unfolding pcs2_def using set_update_subset_insert[of pcs i "(p, Suc c)"] by auto
      then show "newest_first (hist (fst x))"
        using nf pin pc by auto
    qed
    have dec: "sum_list (map (\<lambda>pc. length (hist (fst pc)) - snd pc) pcs2) + 1 =
            sum_list (map (\<lambda>pc. length (hist (fst pc)) - snd pc) pcs)"
      unfolding pcs2_def
      by (rule sum_list_update_dec) (use i len pc c in simp_all)
    define M where "M = sum_list (map (\<lambda>pc. length (hist (fst pc)) - snd pc) pcs2)"
    have M: "N = Suc M"
      using dec N unfolding M_def by linarith
    have N2: "sum_list (map (\<lambda>pc. length (hist (fst pc)) - snd pc) pcs2) = M"
      by (simp add: M_def)
    define E where "E = enum_loop (Suc M) (paged_source P hist) opp since ss2"
    from less.IH[of M pcs2 ss2, OF _ tr2 nf2 N2] M
    have ih1: "snd E = Exhausted"
      and ih2: "sorted_wrt (\<lambda>a b. started_at (snd b) \<le> started_at (snd a)) (yielded (fst E))"
      and ih3: "\<And>j. j < length pcs \<Longrightarrow>
                  yielded_from j (fst E) = drop (snd (pcs2 ! j)) (hist (fst (pcs2 ! j)))"
      and ih4: "\<And>y. y \<in> set (yielded (fst E)) \<Longrightarrow> fst y < length pcs"
      unfolding E_def pcs2_def by simp_all
    have eq: "enum_loop (Suc N) (paged_source P hist) opp since ss =
                (evs @ Yielded i g # fst E, snd E)"
      using run[rule_format, of N] unfolding M E_def ss2_def g_def by simp
    have ys: "yielded (fst (enum_loop (Suc N) (paged_source P hist) opp since ss)) =
                (i, g) # yielded (fst E)"
      unfolding eq using ye by (simp add: yielded_append)
    have sub: "set (drop (snd (pcs2 ! j)) (hist (fst (pcs2 ! j)))) \<subseteq>
                 set (drop (snd (pcs ! j)) (hist (fst (pcs ! j))))"
      if "j < length pcs" for j
    proof (cases "j = i")
      case True
      then show ?thesis
        using that pc unfolding pcs2_def by (simp add: set_drop_subset_set_drop)
    next
      case False
      then show ?thesis unfolding pcs2_def by simp
    qed
    have bound: "started_at (snd y) \<le> started_at g" if y: "y \<in> set (yielded (fst E))" for y
    proof -
      define j where "j = fst y"
      have j: "j < length pcs" using ih4[OF y] by (simp add: j_def)
      obtain q d where qd: "pcs ! j = (q, d)" by (cases "pcs ! j")
      have "snd y \<in> set (yielded_from j (fst E))"
        using y unfolding yielded_from_def j_def by force
      with ih3[OF j] sub[OF j] have mem: "snd y \<in> set (drop d (hist q))"
        by (auto simp: qd)
      then have d: "d < length (hist q)" by (cases "d < length (hist q)") simp_all
      have "newest_first (hist q)"
        using nf j qd nth_mem[OF j] by force
      from newest_first_drop[OF this d mem]
      have 1: "started_at (snd y) \<le> started_at (hist q ! d)" .
      from list_all2_nthD[OF rd j] qd obtain sj where sj: "ss' ! j = Some sj"
        and lj: "index sj < length (games sj)" and cj: "games sj ! index sj = hist q ! d"
        using d by (auto simp: ready_def split: option.splits)
      from top[OF _ sj lj] j len cj have "started_at (hist q ! d) \<le> started_at g" by simp
      with 1 show ?thesis by simp
    qed
    have 1: "snd (enum_loop (Suc N) (paged_source P hist) opp since ss) = Exhausted"
      unfolding eq using ih1 by simp
    have 2: "sorted_wrt (\<lambda>a b. started_at (snd b) \<le> started_at (snd a))
           (yielded (fst (enum_loop (Suc N) (paged_source P hist) opp since ss)))"
      unfolding ys using ih2 bound by simp
    have 3: "yielded_from j (fst (enum_loop (Suc N) (paged_source P hist) opp since ss)) =
               drop (snd (pcs ! j)) (hist (fst (pcs ! j)))" if j: "j < length pcs" for j
    proof (cases "j = i")
      case True
      have "yielded_from j (fst (enum_loop (Suc N) (paged_source P hist) opp since ss)) =
              g # drop (Suc c) (hist p)"
        unfolding eq fst_conv yielded_from_Cons[OF ye]
        using ih3[OF j] True j by (simp add: pcs2_def)
      also have "\<dots> = drop c (hist p)"
        unfolding gc using c by (simp add: Cons_nth_drop_Suc)
      finally show ?thesis using True pc by simp
    next
      case False
      have "yielded_from j (fst (enum_loop (Suc N) (paged_source P hist) opp since ss)) =
              yielded_from j (fst E)"
        unfolding eq fst_conv yielded_from_Cons[OF ye] using False by simp
      then show ?thesis using ih3[OF j] False by (simp add: pcs2_def)
    qed
    have 4: "\<forall>y\<in>set (yielded (fst (enum_loop (Suc N) (paged_source P hist) opp since ss))).
             fst y < length pcs"
      unfolding ys using ih4 i len by auto
    show ?thesis using 1 2 3 4 by blast
  qed
qed

lemma yielded_first_pages:
  "yielded (map (\<lambda>(i, p). Fetched i (games_request p opp since 1)) xs) = []"
  by (induction xs) (simp_all add: case_prod_beta)

text \<open>
  Claim C1. Let every profile of \<open>ids\<close> have a history that is newest first, served in
  pages of a positive size. Then the run of \<open>enumPlayerGames\<close>, given one round more
  than there are games, ends because no state has a game left; the games it yields are
  in non-increasing order of \<open>started_at\<close>; and the games yielded from the state at
  position \<open>j\<close> are exactly the history of the \<open>j\<close>-th profile, each game once and in
  the order of the history, every yield coming from one of these positions.
\<close>

theorem merge_ordering:
  assumes "0 < per_page"
    and "\<forall>p\<in>set ids. newest_first (hist p)"
    and "\<not> truthy opp \<or> Number_isInteger opp"
  shows "snd (enumPlayerGames (Suc (sum_list (map (\<lambda>p. length (hist p)) ids)))
                (paged_source per_page hist) (Ids (map JInt ids)) opp since) = Exhausted \<and>
         sorted_wrt (\<lambda>a b. started_at b \<le> started_at a)
           (map snd (yielded (fst (enumPlayerGames (Suc (sum_list (map (\<lambda>p. length (hist p)) ids)))
                (paged_source per_page hist) (Ids (map JInt ids)) opp since)))) \<and>
         (\<forall>j<length ids.
            yielded_from j (fst (enumPlayerGames (Suc (sum_list (map (\<lambda>p. length (hist p)) ids)))
                (paged_source per_page hist) (Ids (map JInt ids)) opp since)) = hist (ids ! j)) \<and>
         (\<forall>y\<in>set (yielded (fst (enumPlayerGames (Suc (sum_list (map (\<lambda>p. length (hist p)) ids)))
                (paged_source per_page hist) (Ids (map JInt ids)) opp since))).
            fst y < length ids)"
proof -
  define N where "N = sum_list (map (\<lambda>p. length (hist p)) ids)"
  define pcs where "pcs = map (\<lambda>p. (p, 0::nat)) ids"
  define states where
    "states = map (\<lambda>p. fetchPlayerGames (paged_source per_page hist) p opp since 1) (map JInt ids)"
  define init where
    "init = map (\<lambda>(i, p). Fetched i (games_request p opp since 1)) (enumerate 0 (map JInt ids))"
  define E where "E = enum_loop (Suc N) (paged_source per_page hist) opp since states"
  have st: "states = map (\<lambda>p. Some (page_view per_page (hist p) (JInt p) opp 1 0)) ids"
    unfolding states_def using fetchPlayerGames_paged[of 1 per_page hist _ opp since]
    by simp
  have tr: "list_all2 (tracks per_page hist opp) pcs states"
    unfolding st pcs_def list_all2_map1 list_all2_map2
    by (rule list_all2_refl) (simp add: tracks_def, intro exI[of _ 1] exI[of _ 0], simp)
  have nf: "\<forall>pc\<in>set pcs. newest_first (hist (fst pc))"
    using assms(2) by (auto simp: pcs_def)
  have sm: "sum_list (map (\<lambda>pc. length (hist (fst pc)) - snd pc) pcs) = N"
    by (simp add: pcs_def N_def comp_def)
  from enum_loop_merge[OF assms(1) tr nf sm, of since]
  have 1: "snd E = Exhausted"
    and 2: "sorted_wrt (\<lambda>a b. started_at (snd b) \<le> started_at (snd a)) (yielded (fst E))"
    and 3: "\<And>j. j < length ids \<Longrightarrow> yielded_from j (fst E) = hist (ids ! j)"
    and 4: "\<forall>y\<in>set (yielded (fst E)). fst y < length ids"
    unfolding E_def pcs_def by simp_all
  have valid: "filter (\<lambda>p. \<not> Number_isInteger p) (map JInt ids) = []"
    by (simp add: filter_empty_conv)
  have run: "enumPlayerGames (Suc N) (paged_source per_page hist) (Ids (map JInt ids)) opp since =
               (init @ fst E, snd E)"
    using assms(3) valid
    unfolding enumPlayerGames_def Let_def E_def states_def init_def
    by (auto simp: case_prod_beta)
  have yi: "yielded init = []"
    unfolding init_def by (rule yielded_first_pages)
  have y: "yielded (init @ fst E) = yielded (fst E)"
    by (simp add: yielded_append yi)
  show ?thesis
    unfolding N_def[symmetric] run fst_conv snd_conv yielded_from_def y
    using 1 2 3 4 by (simp add: sorted_wrt_map yielded_from_def)
qed

theorem merge_ordering_witness:
  "snd (enumPlayerGames 6 (paged_source 2 sample_history) (Ids [JInt 1, JInt 2]) JNull None) = Exhausted \<and>
   map (\<lambda>y. (fst y, started_at (snd y)))
     (yielded (fst (enumPlayerGames 6 (paged_source 2 sample_history) (Ids [JInt 1, JInt 2]) JNull None))) =
     [(0, 5000), (1, 4000), (0, 3000), (1, 3000), (0, 1000)] \<and>
   yielded_from 0 (fst (enumPlayerGames 6 (paged_source 2 sample_history) (Ids [JInt 1, JInt 2]) JNull None)) =
     sample_history 1 \<and>
   yielded_from 1 (fst (enumPlayerGames 6 (paged_source 2 sample_history) (Ids [JInt 1, JInt 2]) JNull None)) =
     sample_history 2"
proof -
  have nf: "\<forall>p\<in>set [1, 2]. newest_first (sample_history p)"
    by (simp add: newest_first_def sample_history_def duel_def)
  have n: "Suc (sum_list (map (\<lambda>p. length (sample_history p)) [1, 2])) = 6"
    by (simp add: sample_history_def)
  have ys: "map (\<lambda>y. (fst y, started_at (snd y)))
     (yielded (fst (enumPlayerGames 6 (paged_source 2 sample_history) (Ids [JInt 1, JInt 2]) JNull None))) =
     [(0, 5000), (1, 4000), (0, 3000), (1, 3000), (0, 1000)]"
    by (simp add: enumPlayerGames_def fetchPlayerGames_def games_request_def eval_nat_numeral
          paged_source_def sample_history_def needs_new_page_def duel_def)
  have two: "(0::nat) < 2" by simp
  have opp: "\<not> truthy JNull \<or> Number_isInteger JNull" by simp
  note th = merge_ordering[of 2 "[1, 2]" sample_history JNull None, OF two nf opp, unfolded n]
  from th have e: "snd (enumPlayerGames 6 (paged_source 2 sample_history)
                          (Ids [JInt 1, JInt 2]) JNull None) = Exhausted"
    by simp
  from th have p: "\<forall>j<length [1, 2 :: int].
      yielded_from j (fst (enumPlayerGames 6 (paged_source 2 sample_history)
                             (Ids [JInt 1, JInt 2]) JNull None)) = sample_history ([1, 2] ! j)"
    by simp
  from p[rule_format, of 0] p[rule_format, of 1] e ys show ?thesis by simp
qed

end
